theory Spec2Isabelle
  imports Main "HOL-Library.Multiset"
begin

section \<open>The bot of bot.py: data model\<close>

text \<open>
  The class \<open>Bot\<close> of bot.py keeps no data of its own between two calls: everything it
  knows is in three tables of a PostgreSQL database, which it reads and writes one
  statement at a time, and in what the S3 client and the Twitter client answer.

  The three tables are named by configuration strings; the model names them by role.
  A row has the three columns the code touches: the column read as \<open>row[0]\<close> (\<open>filepath\<close>
  in the queue and recent tables, \<open>id\<close> in the table of sent requests), the column read
  as \<open>row[1]\<close> where there is one (\<open>comment\<close> in the queue, \<open>screen_name\<close> in the table
  of sent requests; absent or NULL is \<open>None\<close>), and \<open>timestamp\<close>.
  A table is the list of its rows in order of insertion; duplicates are possible, since
  no statement of the code declares a key.

  Time is counted in ticks of the clock \<open>datetime.datetime.now()\<close> reads; the epoch
  \<open>utcfromtimestamp(0)\<close> is tick 0, and \<open>tweet_timeout\<close> is in the same unit. Each read
  of the clock returns a later value than the one before (the clock advances between two
  statements sent to the database).

  \<open>delete_row\<close> and \<open>insert_recent\<close> do not pass the key as a parameter: they splice
  it between apostrophes into the text of the statement with \<open>format\<close>. A key that
  holds an apostrophe ends the literal early and the server is sent another text than
  the one meant: for \<open>it's.png\<close> it is \<open>... WHERE filepath = ('it's.png')\<close>, which the
  server rejects, so that \<open>execute\<close> raises \<open>psycopg2.ProgrammingError\<close> and no row is
  touched. The model gives that outcome to every key with an apostrophe; for every
  other key the statement is the one meant. The loop of \<open>INSERT\<close> statements
  of \<open>smart_queue\<close> passes its values as parameters, so any key can enter the queue.
  The ids and screen names spliced by \<open>request_sent\<close> and \<open>update_request_sent\<close> come
  from Twitter, where an id is a decimal numeral and a screen name is made of letters,
  digits and underscores.
\<close>

datatype table_name = queue_table | recent_queue_table | request_sent_table

record row =
  key :: string
  detail :: "string option"
  timestamp :: int

datatype event =
    Inserted table_name string
  | Deleted table_name string
  | Deleted_oldest table_name
  | Download_file string
  | Media_upload string
  | Update_status "string option"
  | Follow string
  | Unfollow string

text \<open>
  The state: the three tables, the clock, and the journal of every statement that
  changes a table and of every call that reaches S3 or Twitter, oldest first.
\<close>

record state =
  queue_rows :: "row list"
  recent_rows :: "row list"
  request_rows :: "row list"
  clock :: int
  journal :: "event list"

text \<open>The fields of \<open>keys.json\<close> that the modelled methods read.\<close>

record bot =
  tweet_enabled :: bool
  recent_limit :: int
  max_download_attempts :: int
  max_tweet_attempts :: int
  tweet_timeout :: int

datatype py_error = TypeError | KeyError | IndexError | ProgrammingError

section \<open>The persistence helpers\<close>

fun rows_of :: "table_name \<Rightarrow> state \<Rightarrow> row list" where
  "rows_of queue_table s = queue_rows s"
| "rows_of recent_queue_table s = recent_rows s"
| "rows_of request_sent_table s = request_rows s"

fun with_rows :: "table_name \<Rightarrow> row list \<Rightarrow> state \<Rightarrow> state" where
  "with_rows queue_table rs s = s\<lparr>queue_rows := rs\<rparr>"
| "with_rows recent_queue_table rs s = s\<lparr>recent_rows := rs\<rparr>"
| "with_rows request_sent_table rs s = s\<lparr>request_rows := rs\<rparr>"

definition emit :: "event \<Rightarrow> state \<Rightarrow> state" where
  "emit e s = s\<lparr>journal := journal s @ [e]\<rparr>"

text \<open>\<open>datetime.datetime.now()\<close>: the value read, and the state with the clock advanced.\<close>

definition now :: "state \<Rightarrow> int \<times> state" where
  "now s = (clock s, s\<lparr>clock := clock s + 1\<rparr>)"

text \<open>\<open>count_rows\<close>: \<open>SELECT count(*)\<close>.\<close>

definition count_rows :: "table_name \<Rightarrow> state \<Rightarrow> int" where
  "count_rows t s = int (length (rows_of t s))"

text \<open>
  \<open>ORDER BY timestamp DESC LIMIT 1\<close>: a row of greatest timestamp, \<open>None\<close> (what
  \<open>fetchone\<close> returns) on an empty table. Among rows of equal timestamp SQL leaves the
  choice open; the model takes the one inserted first.
\<close>

fun newer :: "row \<Rightarrow> row \<Rightarrow> row" where
  "newer best r = (if timestamp best < timestamp r then r else best)"

fun newest :: "row list \<Rightarrow> row option" where
  "newest [] = None"
| "newest (r # rs) = Some (foldl newer r rs)"

definition get_newest_row :: "table_name \<Rightarrow> state \<Rightarrow> row option" where
  "get_newest_row t s = newest (rows_of t s)"

text \<open>
  \<open>delete_oldest_row\<close>: \<open>DELETE ... WHERE timestamp IN (SELECT timestamp ... ORDER BY
  timestamp ASC LIMIT 1)\<close> deletes every row that carries the least timestamp.
\<close>

fun oldest_timestamp :: "row list \<Rightarrow> int option" where
  "oldest_timestamp [] = None"
| "oldest_timestamp (r # rs) = Some (foldl min (timestamp r) (map timestamp rs))"

definition delete_oldest_row :: "table_name \<Rightarrow> state \<Rightarrow> state" where
  "delete_oldest_row t s =
     (case oldest_timestamp (rows_of t s) of
        None \<Rightarrow> emit (Deleted_oldest t) s
      | Some m \<Rightarrow>
          emit (Deleted_oldest t)
            (with_rows t (filter (\<lambda>r. timestamp r \<noteq> m) (rows_of t s)) s))"

text \<open>A value that holds an apostrophe breaks the literal it is spliced into.\<close>

definition breaks_literal :: "string \<Rightarrow> bool" where
  "breaks_literal v = (CHR 0x27 \<in> set v)"

text \<open>
  \<open>delete_row\<close>: \<open>"DELETE FROM {0} WHERE {1} = ('{2}')".format(table_name, field, id)\<close>.
  \<open>run_delete\<close> is what the statement does when the server accepts it: every row of
  that key goes.
\<close>

definition run_delete :: "table_name \<Rightarrow> string \<Rightarrow> state \<Rightarrow> state" where
  "run_delete t k s =
     emit (Deleted t k) (with_rows t (filter (\<lambda>r. key r \<noteq> k) (rows_of t s)) s)"

definition delete_row :: "table_name \<Rightarrow> string \<Rightarrow> state \<Rightarrow> py_error + state" where
  "delete_row t k s =
     (if breaks_literal k then Inl ProgrammingError else Inr (run_delete t k s))"

definition insert_row :: "table_name \<Rightarrow> row \<Rightarrow> state \<Rightarrow> state" where
  "insert_row t r s = emit (Inserted t (key r)) (with_rows t (rows_of t s @ [r]) s)"

text \<open>
  \<open>insert_recent\<close>: one row \<open>(filepath, timestamp)\<close> into the recent table, by
  \<open>"INSERT INTO {0} (filepath, timestamp) VALUES ('{1}','{2}')".format(...)\<close>.
  \<open>put_recent\<close> is what the statement does when the server accepts it.
\<close>

definition put_recent :: "string \<Rightarrow> state \<Rightarrow> state" where
  "put_recent entry s =
     (let (t, s1) = now s
      in insert_row recent_queue_table \<lparr>key = entry, detail = None, timestamp = t\<rparr> s1)"

definition insert_recent :: "string \<Rightarrow> state \<Rightarrow> py_error + state" where
  "insert_recent entry s =
     (if breaks_literal entry then Inl ProgrammingError else Inr (put_recent entry s))"

text \<open>\<open>request_sent\<close> and \<open>update_request_sent\<close>.\<close>

definition request_sent :: "string \<Rightarrow> state \<Rightarrow> bool" where
  "request_sent i s = (i \<in> set (map key (rows_of request_sent_table s)))"

definition update_request_sent :: "string \<Rightarrow> string \<Rightarrow> state \<Rightarrow> state" where
  "update_request_sent i name s =
     (let (t, s1) = now s
      in insert_row request_sent_table \<lparr>key = i, detail = Some name, timestamp = t\<rparr> s1)"

definition get_table_contents :: "table_name \<Rightarrow> state \<Rightarrow> row list" where
  "get_table_contents t s = rows_of t s"

text \<open>
  \<open>get_recent_timestamp\<close>: the greatest timestamp of the table, the epoch when the
  table is empty. \<open>get_time_since_last_tweet\<close> reads the clock first.
\<close>

definition get_recent_timestamp :: "table_name \<Rightarrow> state \<Rightarrow> int" where
  "get_recent_timestamp t s =
     (case newest (rows_of t s) of None \<Rightarrow> 0 | Some r \<Rightarrow> timestamp r)"

definition get_time_since_last_tweet :: "state \<Rightarrow> int" where
  "get_time_since_last_tweet s = clock s - get_recent_timestamp recent_queue_table s"

definition can_tweet :: "bot \<Rightarrow> state \<Rightarrow> bool" where
  "can_tweet b s =
     (tweet_enabled b \<and> count_rows queue_table s > 0
      \<and> get_time_since_last_tweet s > tweet_timeout b)"

section \<open>The publish pipeline\<close>

text \<open>
  What the collaborators answer is an input of the model. For one call of
  \<open>download_latest\<close>: whether \<open>os.path.isfile\<close> finds the file locally, and how
  \<open>download_file\<close> ends for a key (it returns, or raises one of the three exceptions the
  method handles). For one call of \<open>tweet_media\<close>: how \<open>media_upload\<close> and
  \<open>update_status\<close> end in each attempt (they return, raise a \<open>TweepError\<close> whose
  response is absent or carries a status code, or raise the \<open>TypeError\<close> the method
  handles). The folder \<open>os.makedirs\<close> creates for the download is part of the file
  system behind \<open>download_file\<close>; exceptions of other classes, which no handler of
  these methods names, are not among the answers.
\<close>

datatype fetch_outcome = Fetched | FileNotFoundError | ClientError | IsADirectoryError

datatype api_outcome = Returned | TweepError "int option" | Raised_TypeError

record world =
  isfile :: "string \<Rightarrow> bool"
  download_file :: "string \<Rightarrow> fetch_outcome"
  media_upload :: "nat \<Rightarrow> api_outcome"
  update_status :: "nat \<Rightarrow> api_outcome"

text \<open>
  How one pass through the body of a \<open>for\<close> loop ends: at the end of the body or at
  \<open>continue\<close>, at \<open>break\<close>, at \<open>return\<close>, or with an exception nothing catches.
\<close>

datatype 'a flow = Continue state | Break state | Return 'a state | Raise py_error

subsection \<open>\<open>download_latest\<close>\<close>

text \<open>
  One attempt. \<open>row[0]\<close> on the \<open>None\<close> of an empty queue raises \<open>TypeError\<close>, which
  nothing catches; nor does anything catch what \<open>delete_row\<close> raises inside the three
  handlers.
\<close>

definition download_attempt :: "world \<Rightarrow> state \<Rightarrow> (string \<times> string option) flow" where
  "download_attempt w s =
     (case get_newest_row queue_table s of
        None \<Rightarrow> Raise TypeError
      | Some r \<Rightarrow>
          (let filepath = key r; comment = detail r
           in if isfile w filepath then Return (filepath, comment) s
              else
                (let s1 = emit (Download_file filepath) s
                 in case download_file w filepath of
                      Fetched \<Rightarrow> Return (filepath, comment) s1
                    | FileNotFoundError \<Rightarrow>
                        (case delete_row queue_table filepath s1 of
                           Inl e \<Rightarrow> Raise e | Inr s2 \<Rightarrow> Continue s2)
                    | ClientError \<Rightarrow>
                        (case delete_row queue_table filepath s1 of
                           Inl e \<Rightarrow> Raise e | Inr s2 \<Rightarrow> Continue s2)
                    | IsADirectoryError \<Rightarrow>
                        (case delete_row queue_table filepath s1 of
                           Inl e \<Rightarrow> Raise e | Inr s2 \<Rightarrow> Break s2))))"

fun download_loop ::
  "world \<Rightarrow> nat \<Rightarrow> state \<Rightarrow> py_error + ((string \<times> string option) option \<times> state)" where
  "download_loop w 0 s = Inr (None, s)"
| "download_loop w (Suc n) s =
     (case download_attempt w s of
        Raise e \<Rightarrow> Inl e
      | Return t s1 \<Rightarrow> Inr (Some t, s1)
      | Continue s1 \<Rightarrow> download_loop w n s1
      | Break s1 \<Rightarrow> Inr (None, s1))"

definition download_latest ::
  "bot \<Rightarrow> world \<Rightarrow> state \<Rightarrow> py_error + ((string \<times> string option) option \<times> state)" where
  "download_latest b w s = download_loop w (nat (max_download_attempts b)) s"

text \<open>The states in which the attempts of the loop start, in order.\<close>

fun attempt_starts :: "world \<Rightarrow> nat \<Rightarrow> state \<Rightarrow> state list" where
  "attempt_starts w 0 s = []"
| "attempt_starts w (Suc n) s =
     s # (case download_attempt w s of Continue s1 \<Rightarrow> attempt_starts w n s1 | _ \<Rightarrow> [])"

subsection \<open>\<open>tweet_media\<close>\<close>

text \<open>
  The handler of \<open>TweepError\<close>: does it reach \<open>continue\<close>? Its inputs are the response of
  the error (absent, or a status code) and whether \<open>ids\<close> is still empty.
\<close>

definition handler_continues :: "int option \<Rightarrow> bool \<Rightarrow> bool" where
  "handler_continues response not_ids =
     (case response of
        Some status_code \<Rightarrow>
          (if status_code = 429 then False
           else if status_code = 500 then not_ids
           else if status_code = 503 then not_ids
           else not_ids)
      | None \<Rightarrow> not_ids)"

text \<open>
  One attempt, the \<open>attempt\<close>-th of the call. \<open>ids\<close> is empty until \<open>media_upload\<close> has
  returned; every path that does not reach \<open>continue\<close> falls to the \<open>break\<close> that ends
  the body.
\<close>

definition tweet_attempt ::
  "world \<Rightarrow> string \<Rightarrow> string option \<Rightarrow> nat \<Rightarrow> state \<Rightarrow> unit flow" where
  "tweet_attempt w filepath comment attempt s =
     (let s1 = emit (Media_upload filepath) s
      in case media_upload w attempt of
           TweepError response \<Rightarrow>
             (if handler_continues response True then Continue s1 else Break s1)
         | Raised_TypeError \<Rightarrow> Break s1
         | Returned \<Rightarrow>
             (let s2 = emit (Update_status comment) s1
              in case update_status w attempt of
                   TweepError response \<Rightarrow>
                     (if handler_continues response False then Continue s2 else Break s2)
                 | Raised_TypeError \<Rightarrow> Break s2
                 | Returned \<Rightarrow> Break s2))"

fun tweet_loop ::
  "world \<Rightarrow> string \<Rightarrow> string option \<Rightarrow> nat \<Rightarrow> nat \<Rightarrow> state \<Rightarrow> state" where
  "tweet_loop w filepath comment attempt 0 s = s"
| "tweet_loop w filepath comment attempt (Suc n) s =
     (case tweet_attempt w filepath comment attempt s of
        Continue s1 \<Rightarrow> tweet_loop w filepath comment (Suc attempt) n s1
      | Break s1 \<Rightarrow> s1
      | Return u s1 \<Rightarrow> s1
      | Raise e \<Rightarrow> s)"

definition tweet_media :: "bot \<Rightarrow> world \<Rightarrow> string \<Rightarrow> string option \<Rightarrow> state \<Rightarrow> state" where
  "tweet_media b w filepath comment s =
     tweet_loop w filepath comment 0 (nat (max_tweet_attempts b)) s"

subsection \<open>\<open>tweet\<close>\<close>

text \<open>\<open>for i in range(k): self.delete_oldest_row(...)\<close>.\<close>

fun delete_oldest_rows :: "nat \<Rightarrow> table_name \<Rightarrow> state \<Rightarrow> state" where
  "delete_oldest_rows 0 t s = s"
| "delete_oldest_rows (Suc k) t s = delete_oldest_rows k t (delete_oldest_row t s)"

definition tweet :: "bot \<Rightarrow> world \<Rightarrow> state \<Rightarrow> py_error + state" where
  "tweet b w s =
     (case download_latest b w s of
        Inl e \<Rightarrow> Inl e
      | Inr (None, s1) \<Rightarrow> Inr s1
      | Inr (Some (filepath, comment), s1) \<Rightarrow>
          (case delete_row queue_table filepath s1 of
             Inl e \<Rightarrow> Inl e
           | Inr s2 \<Rightarrow>
               (let s3 = tweet_media b w filepath comment s2
                in case insert_recent filepath s3 of
                     Inl e \<Rightarrow> Inl e
                   | Inr s4 \<Rightarrow>
                       (let row_count = count_rows recent_queue_table s4
                        in if row_count > recent_limit b
                           then Inr (delete_oldest_rows (nat (row_count - recent_limit b))
                                       recent_queue_table s4)
                           else Inr s4))))"

section \<open>The queue builder: \<open>smart_queue\<close>\<close>

text \<open>
  The answer of \<open>list_objects\<close> is a dictionary; \<open>response['Contents']\<close> raises
  \<open>KeyError\<close> when it has no such entry. Of each listed object only \<open>Key\<close> is read.
  \<open>random.shuffle\<close> is an input too: the two calls are two functions on lists, of which
  the theorems assume that they permute their argument.
\<close>

record s3_object =
  Key :: string

type_synonym listing = "string \<rightharpoonup> s3_object list"

definition endswith_slash :: "string \<Rightarrow> bool" where
  "endswith_slash k = (k \<noteq> [] \<and> last k = CHR ''/'')"

definition permutes :: "(string list \<Rightarrow> string list) \<Rightarrow> bool" where
  "permutes shuffle = (\<forall>xs. mset (shuffle xs) = mset xs)"

text \<open>
  \<open>for i in range(end): new_queue.append(temp.pop())\<close>; \<open>pop\<close> takes the last element
  and raises \<open>IndexError\<close> on an empty list.
\<close>

fun pop_to_front ::
  "nat \<Rightarrow> string list \<Rightarrow> string list \<Rightarrow> py_error + (string list \<times> string list)" where
  "pop_to_front 0 new_queue temp = Inr (new_queue, temp)"
| "pop_to_front (Suc n) new_queue temp =
     (if temp = [] then Inl IndexError
      else pop_to_front n (new_queue @ [last temp]) (butlast temp))"

text \<open>The list \<open>new_queue\<close> as it stands before the rows are written.\<close>

definition build_new_queue ::
  "bot \<Rightarrow> (string list \<Rightarrow> string list) \<Rightarrow> (string list \<Rightarrow> string list) \<Rightarrow>
   string list \<Rightarrow> string list \<Rightarrow> py_error + string list" where
  "build_new_queue b first_shuffle second_shuffle recent_queue file_pool =
     (let temp = filter (\<lambda>row. row \<notin> set recent_queue) file_pool;
          temp2 = filter (\<lambda>row. row \<in> set recent_queue) file_pool;
          temp = first_shuffle temp;
          end = (if int (length temp) < recent_limit b then int (length temp)
                 else recent_limit b)
      in case pop_to_front (nat end) [] temp of
           Inl e \<Rightarrow> Inl e
         | Inr (new_queue, temp) \<Rightarrow>
             (let temp = second_shuffle (temp @ temp2)
              in Inr (new_queue @ temp)))"

text \<open>The loop of \<open>INSERT\<close> statements, each row stamped with its own reading of the clock.\<close>

fun insert_queue_rows :: "string list \<Rightarrow> state \<Rightarrow> state" where
  "insert_queue_rows [] s = s"
| "insert_queue_rows (filepath # rest) s =
     (let (t, s1) = now s
      in insert_queue_rows rest
           (insert_row queue_table \<lparr>key = filepath, detail = None, timestamp = t\<rparr> s1))"

definition file_pool_of :: "s3_object list \<Rightarrow> string list" where
  "file_pool_of contents = filter (\<lambda>k. \<not> endswith_slash k) (map Key contents)"

definition smart_queue ::
  "bot \<Rightarrow> (string list \<Rightarrow> string list) \<Rightarrow> (string list \<Rightarrow> string list) \<Rightarrow>
   listing \<Rightarrow> state \<Rightarrow> py_error + state" where
  "smart_queue b first_shuffle second_shuffle response s =
     (let recent_queue = map key (get_table_contents recent_queue_table s)
      in case response ''Contents'' of
           None \<Rightarrow> Inl KeyError
         | Some contents \<Rightarrow>
             (case build_new_queue b first_shuffle second_shuffle recent_queue
                     (file_pool_of contents) of
                Inl e \<Rightarrow> Inl e
              | Inr new_queue \<Rightarrow> Inr (insert_queue_rows (rev new_queue) s)))"

text \<open>
  The order in which the pipeline meets the rows of the queue: newest timestamp first.
\<close>

definition newest_first :: "row list \<Rightarrow> row list" where
  "newest_first rs = rev (sort_key timestamp rs)"

text \<open>
  The rows the loop of \<open>INSERT\<close> statements writes when the clock stands at \<open>c\<close>, and
  the number of entries the builder puts in front: the lesser of the number of pool keys
  that are not recent and of \<open>recent_limit\<close>.
\<close>

fun stamped_rows :: "int \<Rightarrow> string list \<Rightarrow> row list" where
  "stamped_rows c [] = []"
| "stamped_rows c (filepath # rest) =
     \<lparr>key = filepath, detail = None, timestamp = c\<rparr> # stamped_rows (c + 1) rest"

definition front_size :: "bot \<Rightarrow> string list \<Rightarrow> string list \<Rightarrow> nat" where
  "front_size b recent_queue file_pool =
     nat (min (int (length (filter (\<lambda>k. k \<notin> set recent_queue) file_pool))) (recent_limit b))"

section \<open>The relationship tracker\<close>

text \<open>
  The followers Twitter lists, each with the way \<open>follower.follow()\<close> would end for it;
  the listing itself can raise a \<open>TweepError\<close>, which the outer handler only prints.
\<close>

record follower =
  id_str :: string
  screen_name :: string

datatype follow_outcome = Followed | Follow_error "int option"

datatype followers_answer =
    Followers "(follower \<times> follow_outcome) list"
  | Followers_error "int option"

definition follow_one :: "follower \<times> follow_outcome \<Rightarrow> state \<Rightarrow> state" where
  "follow_one p s =
     (let follower = fst p; outcome = snd p
      in if \<not> request_sent (id_str follower) s
         then
           (let s1 = emit (Follow (id_str follower)) s
            in case outcome of
                 Followed \<Rightarrow>
                   update_request_sent (id_str follower) (screen_name follower) s1
               | Follow_error response \<Rightarrow>
                   (case response of
                      Some status_code \<Rightarrow>
                        (if status_code = 403
                         then update_request_sent (id_str follower) (screen_name follower) s1
                         else if status_code = 429 then s1
                         else s1)
                    | None \<Rightarrow> s1))
         else s)"

fun follow_loop :: "(follower \<times> follow_outcome) list \<Rightarrow> state \<Rightarrow> state" where
  "follow_loop [] s = s"
| "follow_loop (p # rest) s = follow_loop rest (follow_one p s)"

fun follow_back :: "followers_answer \<Rightarrow> state \<Rightarrow> state" where
  "follow_back (Followers followers) s = follow_loop followers s"
| "follow_back (Followers_error response) s = s"

text \<open>
  \<open>unfollow\<close>: the ids of the friends, each with the way \<open>get_user\<close> and
  \<open>user.unfollow()\<close> would end for it, and the ids of the followers; either listing can
  raise a \<open>TweepError\<close>. The pause between two full pages is not modelled. An
  exception of \<open>delete_row\<close> is no \<open>TweepError\<close>: no handler of \<open>unfollow\<close> catches it
  and the run ends there, with the tables and the journal as they stand.
\<close>

datatype unfollow_outcome =
    Unfollowed
  | Get_user_error "int option"
  | Unfollow_error "int option"

datatype 'a pages = Pages "'a list" | Pages_error "int option"

fun unfollow_loop ::
  "string list \<Rightarrow> (string \<times> unfollow_outcome) list \<Rightarrow> nat \<Rightarrow> state \<Rightarrow> state" where
  "unfollow_loop followers [] not_following s = s"
| "unfollow_loop followers ((friend, outcome) # rest) not_following s =
     (if friend \<notin> set followers
      then
        (case outcome of
           Get_user_error response \<Rightarrow> unfollow_loop followers rest not_following s
         | Unfollow_error response \<Rightarrow>
             unfollow_loop followers rest not_following (emit (Unfollow friend) s)
         | Unfollowed \<Rightarrow>
             (case delete_row request_sent_table friend (emit (Unfollow friend) s) of
                Inl e \<Rightarrow> emit (Unfollow friend) s
              | Inr s1 \<Rightarrow>
                  if not_following + 1 \<ge> 180 then s1
                  else unfollow_loop followers rest (not_following + 1) s1))
      else unfollow_loop followers rest not_following s)"

fun unfollow ::
  "(string \<times> unfollow_outcome) pages \<Rightarrow> string pages \<Rightarrow> state \<Rightarrow> state" where
  "unfollow (Pages friends) (Pages followers) s = unfollow_loop followers friends 0 s"
| "unfollow (Pages friends) (Pages_error response) s = s"
| "unfollow (Pages_error response) followers s = s"

text \<open>A history of the tracker: runs of \<open>follow_back\<close> and of \<open>unfollow\<close>, in any order.\<close>

datatype cycle =
    Follow_back_run followers_answer
  | Unfollow_run "(string \<times> unfollow_outcome) pages" "string pages"

fun run_cycle :: "cycle \<Rightarrow> state \<Rightarrow> state" where
  "run_cycle (Follow_back_run answer) s = follow_back answer s"
| "run_cycle (Unfollow_run friends followers) s = unfollow friends followers s"

fun run_cycles :: "cycle list \<Rightarrow> state \<Rightarrow> state" where
  "run_cycles [] s = s"
| "run_cycles (c # cs) s = run_cycles cs (run_cycle c s)"

text \<open>
  Reading a journal against the set of ids that have a row in the table of sent
  requests: \<open>live_after\<close> is that set once the events have happened, and
  \<open>follows_only_new\<close> checks that every \<open>Follow\<close> is for an id without a row at that
  moment.
\<close>

fun live_after :: "string set \<Rightarrow> event list \<Rightarrow> string set" where
  "live_after live [] = live"
| "live_after live (Inserted request_sent_table i # es) = live_after (insert i live) es"
| "live_after live (Deleted request_sent_table i # es) = live_after (live - {i}) es"
| "live_after live (e # es) = live_after live es"

fun follows_only_new :: "string set \<Rightarrow> event list \<Rightarrow> bool" where
  "follows_only_new live [] = True"
| "follows_only_new live (Follow i # es) = (i \<notin> live \<and> follows_only_new live es)"
| "follows_only_new live (e # es) = follows_only_new (live_after live [e]) es"

text \<open>The events a run has added to the journal.\<close>

definition events_since :: "state \<Rightarrow> state \<Rightarrow> event list" where
  "events_since s s' = drop (length (journal s)) (journal s')"

text \<open>
  The ids with a row in the table of sent requests, and what it means that the journal
  of a run from \<open>s\<close> to \<open>s'\<close> agrees with that table: the journal only grew, every
  \<open>Follow\<close> in it was for an id without a row, and the insertions and deletions it
  records lead from the ids of \<open>s\<close> to the ids of \<open>s'\<close>.
\<close>

definition live_ids :: "state \<Rightarrow> string set" where
  "live_ids s = set (map key (request_rows s))"

definition tracked :: "state \<Rightarrow> state \<Rightarrow> bool" where
  "tracked s s' =
     (journal s' = journal s @ events_since s s'
      \<and> follows_only_new (live_ids s) (events_since s s')
      \<and> live_after (live_ids s) (events_since s s') = live_ids s')"

fun is_follow_back_run :: "cycle \<Rightarrow> bool" where
  "is_follow_back_run (Follow_back_run answer) = True"
| "is_follow_back_run (Unfollow_run friends followers) = False"

fun is_media_upload :: "event \<Rightarrow> bool" where
  "is_media_upload (Media_upload f) = True"
| "is_media_upload e = False"

fun is_update_status :: "event \<Rightarrow> bool" where
  "is_update_status (Update_status c) = True"
| "is_update_status e = False"

fun is_queue_insert :: "event \<Rightarrow> bool" where
  "is_queue_insert (Inserted queue_table k) = True"
| "is_queue_insert e = False"

fun is_download_event :: "event \<Rightarrow> bool" where
  "is_download_event (Download_file f) = True"
| "is_download_event (Deleted queue_table f) = True"
| "is_download_event e = False"

section \<open>Example inputs\<close>

text \<open>
  A configuration, answers of the collaborators and states on which the theorems below
  are run: the key \<open>gone.png\<close> is no longer in the bucket, the key \<open>dir/\<close> names a folder,
  and \<open>update_status\<close> fails with status 500.
\<close>

definition example_bot :: bot where
  "example_bot = \<lparr>tweet_enabled = True, recent_limit = 1, max_download_attempts = 3,
     max_tweet_attempts = 3, tweet_timeout = 60\<rparr>"

definition example_world :: world where
  "example_world = \<lparr>isfile = (\<lambda>p. False),
     download_file = (\<lambda>p. if p = ''gone.png'' then ClientError
                           else if p = ''dir/'' then IsADirectoryError else Fetched),
     media_upload = (\<lambda>a. Returned), update_status = (\<lambda>a. TweepError (Some 500))\<rparr>"

definition example_state :: state where
  "example_state = \<lparr>queue_rows =
       [\<lparr>key = ''a.png'', detail = None, timestamp = 5\<rparr>,
        \<lparr>key = ''gone.png'', detail = None, timestamp = 6\<rparr>],
     recent_rows = [\<lparr>key = ''old.png'', detail = None, timestamp = 1\<rparr>],
     request_rows = [], clock = 10, journal = []\<rparr>"

definition example_dir_state :: state where
  "example_dir_state = \<lparr>queue_rows =
       [\<lparr>key = ''a.png'', detail = None, timestamp = 5\<rparr>,
        \<lparr>key = ''dir/'', detail = None, timestamp = 7\<rparr>],
     recent_rows = [\<lparr>key = ''old.png'', detail = None, timestamp = 1\<rparr>],
     request_rows = [], clock = 10, journal = []\<rparr>"

definition example_apostrophe_state :: state where
  "example_apostrophe_state = \<lparr>queue_rows =
       [\<lparr>key = ''a.png'', detail = None, timestamp = 4\<rparr>,
        \<lparr>key = ''it's.png'', detail = None, timestamp = 5\<rparr>],
     recent_rows = [\<lparr>key = ''old.png'', detail = None, timestamp = 1\<rparr>],
     request_rows = [], clock = 10, journal = []\<rparr>"

definition example_gone_state :: state where
  "example_gone_state = \<lparr>queue_rows =
       [\<lparr>key = ''gone.png'', detail = None, timestamp = 6\<rparr>],
     recent_rows = [], request_rows = [], clock = 10, journal = []\<rparr>"

text \<open>
  A listing of five files and a folder, a recent table that still names a file that is no
  longer listed, and the state \<open>smart_queue\<close> builds from them when both shuffles
  reverse their list.
\<close>

definition example_listing :: listing where
  "example_listing = [''Contents'' \<mapsto>
     [\<lparr>Key = ''img/''\<rparr>, \<lparr>Key = ''img/a''\<rparr>, \<lparr>Key = ''img/b''\<rparr>, \<lparr>Key = ''img/c''\<rparr>,
      \<lparr>Key = ''img/d''\<rparr>, \<lparr>Key = ''img/e''\<rparr>]]"

definition example_recent_state :: state where
  "example_recent_state = \<lparr>queue_rows = [],
     recent_rows = [\<lparr>key = ''img/d'', detail = None, timestamp = 3\<rparr>,
                    \<lparr>key = ''img/dead'', detail = None, timestamp = 4\<rparr>],
     request_rows = [], clock = 10, journal = []\<rparr>"

definition example_built_state :: state where
  "example_built_state = \<lparr>queue_rows =
       [\<lparr>key = ''img/e'', detail = None, timestamp = 10\<rparr>,
        \<lparr>key = ''img/c'', detail = None, timestamp = 11\<rparr>,
        \<lparr>key = ''img/d'', detail = None, timestamp = 12\<rparr>,
        \<lparr>key = ''img/b'', detail = None, timestamp = 13\<rparr>,
        \<lparr>key = ''img/a'', detail = None, timestamp = 14\<rparr>],
     recent_rows = [\<lparr>key = ''img/d'', detail = None, timestamp = 3\<rparr>,
                    \<lparr>key = ''img/dead'', detail = None, timestamp = 4\<rparr>],
     request_rows = [], clock = 15,
     journal = [Inserted queue_table ''img/e'', Inserted queue_table ''img/c'',
       Inserted queue_table ''img/d'', Inserted queue_table ''img/b'',
       Inserted queue_table ''img/a'']\<rparr>"

text \<open>
  Three followers: one followed, one refused with status 429, one refused with status
  403; and a table of sent requests that already has a row for the first.
\<close>

definition example_followers :: followers_answer where
  "example_followers = Followers
     [(\<lparr>id_str = ''7'', screen_name = ''ann''\<rparr>, Followed),
      (\<lparr>id_str = ''8'', screen_name = ''bob''\<rparr>, Follow_error (Some 429)),
      (\<lparr>id_str = ''9'', screen_name = ''cy''\<rparr>, Follow_error (Some 403))]"

definition example_tracker_state :: state where
  "example_tracker_state = \<lparr>queue_rows = [], recent_rows = [],
     request_rows = [\<lparr>key = ''7'', detail = Some ''ann'', timestamp = 2\<rparr>],
     clock = 10, journal = []\<rparr>"

section \<open>Facts about the persistence helpers\<close>

lemmas example_defs = example_bot_def example_world_def example_state_def
  example_dir_state_def example_gone_state_def example_apostrophe_state_def

lemmas run_defs = tweet_def download_latest_def download_attempt_def get_newest_row_def
  delete_row_def run_delete_def breaks_literal_def insert_recent_def put_recent_def
  insert_row_def now_def emit_def tweet_media_def
  tweet_attempt_def handler_continues_def count_rows_def delete_oldest_row_def
  events_since_def Let_def

lemmas queue_defs = smart_queue_def example_listing_def example_recent_state_def
  example_built_state_def example_bot_def get_table_contents_def file_pool_of_def
  endswith_slash_def build_new_queue_def Let_def now_def insert_row_def emit_def
  newest_first_def

lemmas tracker_defs = example_followers_def example_tracker_state_def events_since_def
  follow_one_def request_sent_def update_request_sent_def now_def insert_row_def emit_def
  delete_row_def run_delete_def breaks_literal_def Let_def

lemma journal_emit [simp]: "journal (emit e s) = journal s @ [e]"
  by (simp add: emit_def)

lemma rows_of_emit [simp]: "rows_of t (emit e s) = rows_of t s"
  by (cases t) (simp_all add: emit_def)

lemma fields_emit [simp]:
  "queue_rows (emit e s) = queue_rows s"
  "recent_rows (emit e s) = recent_rows s"
  "request_rows (emit e s) = request_rows s"
  "clock (emit e s) = clock s"
  by (simp_all add: emit_def)

lemma rows_of_with_rows [simp]: "rows_of t (with_rows t' rs s) = (if t = t' then rs else rows_of t s)"
  by (cases t; cases t') simp_all

lemma journal_with_rows [simp]: "journal (with_rows t rs s) = journal s"
  by (cases t) simp_all

lemma clock_with_rows [simp]: "clock (with_rows t rs s) = clock s"
  by (cases t) simp_all

lemma run_delete_simps [simp]:
  "rows_of t (run_delete t' k s) =
     (if t = t' then filter (\<lambda>r. key r \<noteq> k) (rows_of t s) else rows_of t s)"
  "journal (run_delete t' k s) = journal s @ [Deleted t' k]"
  "clock (run_delete t' k s) = clock s"
  by (simp_all add: run_delete_def)

lemma delete_row_cases:
  "delete_row t k s = Inr s1 \<longleftrightarrow> \<not> breaks_literal k \<and> s1 = run_delete t k s"
  "delete_row t k s = Inl e \<longleftrightarrow> breaks_literal k \<and> e = ProgrammingError"
  by (auto simp: delete_row_def)

lemma insert_recent_cases:
  "insert_recent f s = Inr s1 \<longleftrightarrow> \<not> breaks_literal f \<and> s1 = put_recent f s"
  "insert_recent f s = Inl e \<longleftrightarrow> breaks_literal f \<and> e = ProgrammingError"
  by (auto simp: insert_recent_def)

lemma insert_row_simps [simp]:
  "rows_of t (insert_row t' r s) = (if t = t' then rows_of t s @ [r] else rows_of t s)"
  "journal (insert_row t' r s) = journal s @ [Inserted t' (key r)]"
  "clock (insert_row t' r s) = clock s"
  by (simp_all add: insert_row_def)

lemma put_recent_simps [simp]:
  "rows_of t (put_recent f s) =
     (if t = recent_queue_table
      then rows_of t s @ [\<lparr>key = f, detail = None, timestamp = clock s\<rparr>] else rows_of t s)"
  "journal (put_recent f s) = journal s @ [Inserted recent_queue_table f]"
  "clock (put_recent f s) = clock s + 1"
  by (cases t; simp add: put_recent_def now_def)+

lemma oldest_timestamp_mem:
  "oldest_timestamp rs = Some m \<Longrightarrow> m \<in> timestamp ` set rs"
proof (cases rs)
  case Nil
  assume "oldest_timestamp rs = Some m"
  with Nil show ?thesis by simp
next
  case (Cons a list)
  assume m: "oldest_timestamp rs = Some m"
  have "foldl min x xs \<in> set (x # xs)" for x :: int and xs
    by (induction xs arbitrary: x) (auto simp: min_def)
  from this[of "timestamp a" "map timestamp list"] m Cons show ?thesis by auto
qed

lemma oldest_timestamp_None: "oldest_timestamp rs = None \<longleftrightarrow> rs = []"
  by (cases rs) auto

lemma delete_oldest_row_simps [simp]:
  "t \<noteq> t' \<Longrightarrow> rows_of t (delete_oldest_row t' s) = rows_of t s"
  "journal (delete_oldest_row t' s) = journal s @ [Deleted_oldest t']"
  "clock (delete_oldest_row t' s) = clock s"
  by (simp_all add: delete_oldest_row_def split: option.splits)

lemma delete_oldest_row_length:
  "length (rows_of t (delete_oldest_row t s)) \<le> length (rows_of t s) - 1"
proof (cases "oldest_timestamp (rows_of t s)")
  case None
  then show ?thesis by (simp add: delete_oldest_row_def oldest_timestamp_None)
next
  case (Some m)
  then have "m \<in> timestamp ` set (rows_of t s)" by (rule oldest_timestamp_mem)
  then obtain r where "r \<in> set (rows_of t s)" "\<not> timestamp r \<noteq> m" by auto
  then have "length (filter (\<lambda>r. timestamp r \<noteq> m) (rows_of t s)) < length (rows_of t s)"
    by (rule length_filter_less)
  with Some show ?thesis by (simp add: delete_oldest_row_def)
qed

lemma delete_oldest_rows_simps [simp]:
  "t \<noteq> t' \<Longrightarrow> rows_of t (delete_oldest_rows k t' s) = rows_of t s"
  "journal (delete_oldest_rows k t' s) = journal s @ replicate k (Deleted_oldest t')"
  "clock (delete_oldest_rows k t' s) = clock s"
  by (induction k arbitrary: s; simp add: replicate_append_same)+

lemma delete_oldest_rows_length:
  "length (rows_of t (delete_oldest_rows k t s)) \<le> length (rows_of t s) - k"
proof (induction k arbitrary: s)
  case 0
  then show ?case by simp
next
  case (Suc k)
  have "length (rows_of t (delete_oldest_rows k t (delete_oldest_row t s)))
          \<le> length (rows_of t (delete_oldest_row t s)) - k"
    by (rule Suc.IH)
  also have "\<dots> \<le> (length (rows_of t s) - 1) - k"
    using delete_oldest_row_length[of t s] by (rule diff_le_mono)
  finally show ?case by simp
qed

lemma foldl_newer_fold:
  "timestamp (foldl newer r rs) = fold max (map timestamp rs) (timestamp r)"
  by (induction rs arbitrary: r) (auto simp: max_def)

lemma newest_timestamp:
  assumes "newest rs = Some r"
  shows "timestamp r = Max (set (map timestamp rs))"
proof (cases rs)
  case Nil
  with assms show ?thesis by simp
next
  case (Cons a list)
  with assms have r: "r = foldl newer a list" by simp
  have "Max (set (timestamp a # map timestamp list)) =
          fold max (map timestamp list) (timestamp a)"
    by (rule Max.set_eq_fold)
  with r Cons show ?thesis by (simp add: foldl_newer_fold)
qed

lemma newest_None: "newest rs = None \<longleftrightarrow> rs = []"
  by (cases rs) auto

lemma get_recent_timestamp_eq:
  "get_recent_timestamp t s =
     (if rows_of t s = [] then 0 else Max (set (map timestamp (rows_of t s))))"
  unfolding get_recent_timestamp_def
  by (auto split: option.splits simp: newest_None newest_timestamp simp del: set_map)

section \<open>When the bot may tweet\<close>

text \<open>
  C5. \<open>can_tweet\<close> is true exactly when \<open>tweet_enabled\<close> is set, the queue table has a
  row, and the time from the greatest timestamp of the recent table (the epoch, tick 0,
  when that table is empty) to now is strictly more than \<open>tweet_timeout\<close>. In
  particular it is false on an empty queue, whatever the time.
\<close>

theorem can_tweet_iff:
  "(can_tweet b s \<longleftrightarrow>
      tweet_enabled b \<and> queue_rows s \<noteq> [] \<and>
      clock s - (if recent_rows s = [] then 0
                 else Max (set (map timestamp (recent_rows s)))) > tweet_timeout b)
   \<and> (queue_rows s = [] \<longrightarrow> \<not> can_tweet b s)"
  unfolding can_tweet_def count_rows_def get_time_since_last_tweet_def
  by (simp add: get_recent_timestamp_eq del: set_map)

theorem can_tweet_iff_witness:
  "queue_rows \<lparr>queue_rows = [], recent_rows = [], request_rows = [], clock = 1000,
       journal = []\<rparr> = []
   \<and> \<not> can_tweet
         \<lparr>tweet_enabled = True, recent_limit = 2, max_download_attempts = 3,
          max_tweet_attempts = 3, tweet_timeout = 60\<rparr>
         \<lparr>queue_rows = [], recent_rows = [], request_rows = [], clock = 1000,
          journal = []\<rparr>
   \<and> can_tweet
         \<lparr>tweet_enabled = True, recent_limit = 2, max_download_attempts = 3,
          max_tweet_attempts = 3, tweet_timeout = 60\<rparr>
         \<lparr>queue_rows = [\<lparr>key = ''a.png'', detail = None, timestamp = 7\<rparr>],
          recent_rows = [], request_rows = [], clock = 1000, journal = []\<rparr>"
  using can_tweet_iff
          [of "\<lparr>tweet_enabled = True, recent_limit = 2, max_download_attempts = 3,
                max_tweet_attempts = 3, tweet_timeout = 60\<rparr>"
              "\<lparr>queue_rows = [], recent_rows = [], request_rows = [], clock = 1000,
                journal = []\<rparr>"]
        can_tweet_iff
          [of "\<lparr>tweet_enabled = True, recent_limit = 2, max_download_attempts = 3,
                max_tweet_attempts = 3, tweet_timeout = 60\<rparr>"
              "\<lparr>queue_rows = [\<lparr>key = ''a.png'', detail = None, timestamp = 7\<rparr>],
                recent_rows = [], request_rows = [], clock = 1000, journal = []\<rparr>"]
  by simp

section \<open>The retry policy of \<open>tweet_media\<close>\<close>

lemma handler_ids: "handler_continues response False = False"
  by (simp add: handler_continues_def split: option.splits)

lemma handler_no_ids: "handler_continues response True = (response \<noteq> Some 429)"
  by (auto simp add: handler_continues_def split: option.splits)

lemma tweet_attempt_journal:
  "tweet_attempt w f c a s = Continue s1 \<Longrightarrow> journal s1 = journal s @ [Media_upload f]"
  "tweet_attempt w f c a s = Break s1 \<Longrightarrow>
     journal s1 = journal s @ [Media_upload f] \<or>
     journal s1 = journal s @ [Media_upload f, Update_status c]"
  "tweet_attempt w f c a s \<noteq> Raise e"
  "tweet_attempt w f c a s \<noteq> Return u s1"
  by (auto simp: tweet_attempt_def Let_def handler_ids split: api_outcome.splits if_splits)

lemma tweet_loop_journal:
  "\<exists>k. k \<le> n \<and>
     (journal (tweet_loop w f c a n s) = journal s @ replicate k (Media_upload f) \<or>
      journal (tweet_loop w f c a n s) =
        journal s @ replicate k (Media_upload f) @ [Update_status c])"
proof (induction n arbitrary: a s)
  case 0
  then show ?case by simp
next
  case (Suc n)
  show ?case
  proof (cases "tweet_attempt w f c a s")
    case (Continue s1)
    from Suc.IH[of "Suc a" s1] obtain k where k: "k \<le> n"
      "journal (tweet_loop w f c (Suc a) n s1) = journal s1 @ replicate k (Media_upload f) \<or>
       journal (tweet_loop w f c (Suc a) n s1) =
         journal s1 @ replicate k (Media_upload f) @ [Update_status c]" by blast
    from Continue have j: "journal s1 = journal s @ [Media_upload f]"
      by (rule tweet_attempt_journal)
    show ?thesis
      apply (rule exI[of _ "Suc k"])
      using k j Continue by (auto simp: replicate_append_same)
  next
    case (Break s1)
    then have "journal s1 = journal s @ [Media_upload f] \<or>
     journal s1 = journal s @ [Media_upload f, Update_status c]"
      by (rule tweet_attempt_journal)
    then show ?thesis
      apply -
      apply (rule exI[of _ "Suc 0"])
      using Break by auto
  next
    case (Return u s1)
    then show ?thesis by (simp add: tweet_attempt_journal)
  next
    case (Raise e)
    then show ?thesis by (simp add: tweet_attempt_journal)
  qed
qed

lemma tweet_media_counts:
  "length (filter is_media_upload (events_since s (tweet_media b w f c s)))
     \<le> nat (max_tweet_attempts b)"
  "length (filter is_update_status (events_since s (tweet_media b w f c s))) \<le> 1"
proof -
  obtain k where k: "k \<le> nat (max_tweet_attempts b)"
    "journal (tweet_media b w f c s) = journal s @ replicate k (Media_upload f) \<or>
     journal (tweet_media b w f c s) =
       journal s @ replicate k (Media_upload f) @ [Update_status c]"
    unfolding tweet_media_def using tweet_loop_journal by blast
  from k show "length (filter is_media_upload (events_since s (tweet_media b w f c s)))
     \<le> nat (max_tweet_attempts b)"
    by (auto simp: events_since_def)
  from k show "length (filter is_update_status (events_since s (tweet_media b w f c s))) \<le> 1"
    by (auto simp: events_since_def)
qed

text \<open>
  C4. In \<open>tweet_media\<close>: a 429 from \<open>media_upload\<close> ends the loop at once; once
  \<open>media_upload\<close> has returned (a media id is in \<open>ids\<close>), a \<open>TweepError\<close> of
  \<open>update_status\<close>, whatever its status, ends the loop too; any other \<open>TweepError\<close> of
  \<open>media_upload\<close> goes on to the next attempt while attempts remain. One call makes at
  most \<open>max_tweet_attempts\<close> calls of \<open>media_upload\<close> and at most one call of
  \<open>update_status\<close>.
\<close>

theorem tweet_media_retry_policy:
  "(media_upload w a = TweepError (Some 429) \<longrightarrow>
      tweet_loop w f c a (Suc n) s = emit (Media_upload f) s)
   \<and> (media_upload w a = Returned \<and> update_status w a = TweepError r \<longrightarrow>
        tweet_loop w f c a (Suc n) s = emit (Update_status c) (emit (Media_upload f) s))
   \<and> (media_upload w a = TweepError r \<and> r \<noteq> Some 429 \<longrightarrow>
        tweet_loop w f c a (Suc n) s =
          tweet_loop w f c (Suc a) n (emit (Media_upload f) s))
   \<and> length (filter is_media_upload (events_since s (tweet_media b w f c s)))
        \<le> nat (max_tweet_attempts b)
   \<and> length (filter is_update_status (events_since s (tweet_media b w f c s))) \<le> 1"
  using tweet_media_counts [of s b w f c]
  by (simp add: tweet_attempt_def handler_ids handler_no_ids)

theorem tweet_media_retry_policy_witness:
  "media_upload
      \<lparr>isfile = (\<lambda>p. False), download_file = (\<lambda>p. Fetched),
       media_upload = (\<lambda>a. if a = 0 then TweepError (Some 503) else TweepError (Some 429)),
       update_status = (\<lambda>a. Returned)\<rparr> 1 = TweepError (Some 429)
   \<and> media_upload
      \<lparr>isfile = (\<lambda>p. False), download_file = (\<lambda>p. Fetched),
       media_upload = (\<lambda>a. if a = 0 then TweepError (Some 503) else TweepError (Some 429)),
       update_status = (\<lambda>a. Returned)\<rparr> 0 = TweepError (Some 503)
   \<and> Some 503 \<noteq> Some (429::int)
   \<and> journal (tweet_loop
        \<lparr>isfile = (\<lambda>p. False), download_file = (\<lambda>p. Fetched),
         media_upload = (\<lambda>a. if a = 0 then TweepError (Some 503) else TweepError (Some 429)),
         update_status = (\<lambda>a. Returned)\<rparr>
        ''a.png'' None 0 (Suc (Suc (Suc 0)))
        \<lparr>queue_rows = [], recent_rows = [], request_rows = [], clock = 0, journal = []\<rparr>)
       = [Media_upload ''a.png'', Media_upload ''a.png'']"
  using tweet_media_retry_policy
          [of "\<lparr>isfile = (\<lambda>p. False), download_file = (\<lambda>p. Fetched),
                media_upload = (\<lambda>a. if a = 0 then TweepError (Some 503)
                                      else TweepError (Some 429)),
                update_status = (\<lambda>a. Returned)\<rparr>"
              0 "''a.png''" None "Suc (Suc 0)"
              "\<lparr>queue_rows = [], recent_rows = [], request_rows = [], clock = 0,
                journal = []\<rparr>"
              "Some 503"]
        tweet_media_retry_policy
          [of "\<lparr>isfile = (\<lambda>p. False), download_file = (\<lambda>p. Fetched),
                media_upload = (\<lambda>a. if a = 0 then TweepError (Some 503)
                                      else TweepError (Some 429)),
                update_status = (\<lambda>a. Returned)\<rparr>"
              "Suc 0" "''a.png''" None "Suc 0"
              "emit (Media_upload ''a.png'')
                 \<lparr>queue_rows = [], recent_rows = [], request_rows = [], clock = 0,
                  journal = []\<rparr>"]
  by simp

section \<open>Frames and journals of the two loops\<close>

lemma tweet_attempt_frame:
  assumes "tweet_attempt w f c a s = Continue s1 \<or> tweet_attempt w f c a s = Break s1"
  shows "rows_of t s1 = rows_of t s \<and> clock s1 = clock s"
  using assms
  by (auto simp: tweet_attempt_def Let_def split: api_outcome.splits if_splits)

lemma tweet_loop_frame:
  "rows_of t (tweet_loop w f c a n s) = rows_of t s \<and> clock (tweet_loop w f c a n s) = clock s"
proof (induction n arbitrary: a s)
  case 0
  then show ?case by simp
next
  case (Suc n)
  show ?case
  proof (cases "tweet_attempt w f c a s")
    case (Continue s1)
    with Suc.IH[of "Suc a" s1] tweet_attempt_frame[of w f c a s s1 t] show ?thesis by simp
  next
    case (Break s1)
    with tweet_attempt_frame[of w f c a s s1 t] show ?thesis by simp
  next
    case (Return u s1)
    then show ?thesis by (simp add: tweet_attempt_journal)
  next
    case (Raise e)
    then show ?thesis by (simp add: tweet_attempt_journal)
  qed
qed

lemma tweet_media_frame [simp]:
  "rows_of t (tweet_media b w f c s) = rows_of t s"
  "clock (tweet_media b w f c s) = clock s"
  by (simp_all add: tweet_media_def tweet_loop_frame)

lemma tweet_media_journal:
  "journal (tweet_media b w f c s) = journal s @ events_since s (tweet_media b w f c s)"
  using tweet_loop_journal[of "nat (max_tweet_attempts b)" w f c 0 s]
  by (auto simp: tweet_media_def events_since_def)

lemma tweet_media_events:
  "e \<in> set (events_since s (tweet_media b w f c s)) \<Longrightarrow> e = Media_upload f \<or> e = Update_status c"
  using tweet_loop_journal[of "nat (max_tweet_attempts b)" w f c 0 s]
  by (auto simp: tweet_media_def events_since_def)

lemma download_attempt_Raise:
  "download_attempt w s = Raise TypeError \<longleftrightarrow> queue_rows s = []"
  by (auto simp: download_attempt_def get_newest_row_def Let_def newest_None delete_row_def
           split: option.splits fetch_outcome.splits)

lemma download_attempt_Raise_which:
  "download_attempt w s = Raise e \<Longrightarrow> e = TypeError \<or> e = ProgrammingError"
  by (auto simp: download_attempt_def Let_def delete_row_def
           split: option.splits fetch_outcome.splits if_splits)

lemma newest_mem: "newest rs = Some r \<Longrightarrow> r \<in> set rs"
proof (cases rs)
  case Nil
  assume "newest rs = Some r"
  with Nil show ?thesis by simp
next
  case (Cons a list)
  assume r: "newest rs = Some r"
  have "foldl newer x xs \<in> set (x # xs)" for x xs
    by (induction xs arbitrary: x) auto
  from this[of a list] r Cons show ?thesis by auto
qed

lemma download_attempt_frame:
  assumes "download_attempt w s = Continue s1 \<or> download_attempt w s = Break s1
           \<or> download_attempt w s = Return x s1"
  shows "recent_rows s1 = recent_rows s \<and> request_rows s1 = request_rows s
         \<and> clock s1 = clock s"
  using assms
  by (auto simp: download_attempt_def Let_def delete_row_def run_delete_def emit_def
           split: option.splits fetch_outcome.splits if_splits)

lemma download_loop_frame:
  "download_loop w n s = Inr (res, s') \<Longrightarrow>
     recent_rows s' = recent_rows s \<and> request_rows s' = request_rows s \<and> clock s' = clock s"
proof (induction n arbitrary: s)
  case 0
  then show ?case by simp
next
  case (Suc n)
  show ?case
  proof (cases "download_attempt w s")
    case (Continue s1)
    with Suc.prems have "download_loop w n s1 = Inr (res, s')" by simp
    from Suc.IH[OF this] download_attempt_frame[of w s s1] Continue show ?thesis by simp
  next
    case (Break s1)
    with Suc.prems download_attempt_frame[of w s s1] show ?thesis by auto
  next
    case (Return x s1)
    with Suc.prems download_attempt_frame[of w s s1 x] show ?thesis by auto
  next
    case (Raise e)
    with Suc.prems show ?thesis by simp
  qed
qed

lemma download_attempt_journal:
  assumes "download_attempt w s = Continue s1 \<or> download_attempt w s = Break s1
           \<or> download_attempt w s = Return x s1"
  shows "\<exists>es. journal s1 = journal s @ es \<and> (\<forall>e\<in>set es. is_download_event e)"
  using assms
  by (auto simp: download_attempt_def Let_def delete_row_def
           split: option.splits fetch_outcome.splits if_splits)

lemma download_loop_journal:
  "download_loop w n s = Inr (res, s') \<Longrightarrow>
     \<exists>es. journal s' = journal s @ es \<and> (\<forall>e\<in>set es. is_download_event e)"
proof (induction n arbitrary: s)
  case 0
  then show ?case by simp
next
  case (Suc n)
  show ?case
  proof (cases "download_attempt w s")
    case (Continue s1)
    with Suc.prems have "download_loop w n s1 = Inr (res, s')" by simp
    from Suc.IH[OF this] obtain es where
      es: "journal s' = journal s1 @ es" "\<forall>e\<in>set es. is_download_event e" by blast
    from download_attempt_journal[of w s s1] Continue obtain es1 where
      es1: "journal s1 = journal s @ es1" "\<forall>e\<in>set es1. is_download_event e" by blast
    from es es1
    have "journal s' = journal s @ (es1 @ es) \<and> (\<forall>e\<in>set (es1 @ es). is_download_event e)"
      by auto
    then show ?thesis by blast
  next
    case (Break s1)
    with Suc.prems download_attempt_journal[of w s s1] show ?thesis by auto
  next
    case (Return x s1)
    with Suc.prems download_attempt_journal[of w s s1 x] show ?thesis by auto
  next
    case (Raise e)
    with Suc.prems show ?thesis by simp
  qed
qed

lemma download_event_not_insert:
  "is_download_event e \<Longrightarrow> \<not> is_queue_insert e \<and> e \<noteq> Inserted t k"
  by (cases e rule: is_download_event.cases) auto

lemma events_since_append:
  "journal s' = journal s @ es \<Longrightarrow> events_since s s' = es"
  by (simp add: events_since_def)

lemma download_attempt_Return:
  "download_attempt w s = Return (f, c) s1 \<Longrightarrow> isfile w f \<or> download_file w f = Fetched"
  by (auto simp: download_attempt_def Let_def delete_row_def
           split: option.splits fetch_outcome.splits if_splits)

lemma download_loop_Some:
  "download_loop w n s = Inr (Some (f, c), s') \<Longrightarrow> isfile w f \<or> download_file w f = Fetched"
proof (induction n arbitrary: s)
  case 0
  then show ?case by simp
next
  case (Suc n)
  show ?case
  proof (cases "download_attempt w s")
    case (Continue s1)
    with Suc.prems have "download_loop w n s1 = Inr (Some (f, c), s')" by simp
    then show ?thesis by (rule Suc.IH)
  next
    case (Break s1)
    with Suc.prems show ?thesis by simp
  next
    case (Return x s1)
    with Suc.prems have "download_attempt w s = Return (f, c) s1" by simp
    then show ?thesis by (rule download_attempt_Return)
  next
    case (Raise e)
    with Suc.prems show ?thesis by simp
  qed
qed

lemma queue_rows_run_delete:
  "queue_rows (run_delete queue_table k s) = filter (\<lambda>r. key r \<noteq> k) (queue_rows s)"
  by (simp add: run_delete_def)

lemma download_loop_fault:
  "download_loop w n s = Inl TypeError \<longleftrightarrow>
     (\<exists>s1\<in>set (attempt_starts w n s). queue_rows s1 = [])"
proof (induction n arbitrary: s)
  case 0
  then show ?case by simp
next
  case (Suc n)
  show ?case
  proof (cases "download_attempt w s")
    case (Continue s1)
    then have "queue_rows s \<noteq> []" using download_attempt_Raise[of w s] by auto
    with Continue Suc.IH[of s1] show ?thesis by simp
  next
    case (Break s1)
    then have "queue_rows s \<noteq> []" using download_attempt_Raise[of w s] by auto
    with Break show ?thesis by simp
  next
    case (Return x s1)
    then have "queue_rows s \<noteq> []" using download_attempt_Raise[of w s] by auto
    with Return show ?thesis by simp
  next
    case (Raise x)
    with download_attempt_Raise[of w s] show ?thesis by auto
  qed
qed

lemma download_loop_fault_which:
  "download_loop w n s = Inl e \<Longrightarrow> e = TypeError \<or> e = ProgrammingError"
proof (induction n arbitrary: s)
  case 0
  then show ?case by simp
next
  case (Suc n)
  show ?case
  proof (cases "download_attempt w s")
    case (Continue s1)
    with Suc.prems have "download_loop w n s1 = Inl e" by simp
    then show ?thesis by (rule Suc.IH)
  next
    case (Break s1)
    with Suc.prems show ?thesis by simp
  next
    case (Return x s1)
    with Suc.prems show ?thesis by simp
  next
    case (Raise x)
    with Suc.prems have "download_attempt w s = Raise e" by simp
    then show ?thesis by (rule download_attempt_Raise_which)
  qed
qed

section \<open>The publish cycle \<open>tweet\<close>\<close>

text \<open>
  C3. With a \<open>recent_limit\<close> that is not negative: when \<open>tweet\<close> returns after it has
  taken an entry from the queue, the recent table has at most \<open>recent_limit\<close> rows,
  whatever it held before; and when \<open>tweet\<close> returns without an entry, a recent table
  that was within the bound still is.
\<close>

theorem recent_bound_after_tweet:
  assumes "0 \<le> recent_limit b" and "tweet b w s = Inr s'"
    and "(\<exists>t s1. download_latest b w s = Inr (Some t, s1))
         \<or> count_rows recent_queue_table s \<le> recent_limit b"
  shows "count_rows recent_queue_table s' \<le> recent_limit b"
proof (cases "download_latest b w s")
  case (Inl e)
  with assms(2) show ?thesis by (simp add: tweet_def)
next
  case (Inr p)
  obtain res s1 where p: "p = (res, s1)" by (cases p)
  with Inr have dl: "download_loop w (nat (max_download_attempts b)) s = Inr (res, s1)"
    by (simp add: download_latest_def)
  have frame: "recent_rows s1 = recent_rows s" using download_loop_frame[OF dl] by simp
  show ?thesis
  proof (cases res)
    case None
    with Inr p assms(2) have "s' = s1" by (simp add: tweet_def)
    with None Inr p assms(3) frame show ?thesis by (simp add: count_rows_def)
  next
    case (Some t)
    obtain f c where t: "t = (f, c)" by (cases t)
    from Inr p Some t assms(2) have nb: "\<not> breaks_literal f"
      by (auto simp: tweet_def delete_row_def split: if_splits)
    then have dr: "delete_row queue_table f s1 = Inr (run_delete queue_table f s1)"
      and ir: "insert_recent f x = Inr (put_recent f x)" for x
      by (simp_all add: delete_row_def insert_recent_def)
    define s4 where "s4 = put_recent f (tweet_media b w f c (run_delete queue_table f s1))"
    have len4: "length (rows_of recent_queue_table s4) = length (recent_rows s) + 1"
      by (simp add: s4_def frame)
    show ?thesis
    proof (cases "count_rows recent_queue_table s4 > recent_limit b")
      case True
      with Inr p Some t assms(2)
      have s': "s' = delete_oldest_rows (nat (count_rows recent_queue_table s4 - recent_limit b))
                      recent_queue_table s4"
        by (simp add: tweet_def Let_def s4_def dr ir)
      have "length (rows_of recent_queue_table s')
              \<le> length (rows_of recent_queue_table s4)
                  - nat (count_rows recent_queue_table s4 - recent_limit b)"
        unfolding s' by (rule delete_oldest_rows_length)
      with assms(1) True show ?thesis by (simp add: count_rows_def)
    next
      case False
      with Inr p Some t assms(2) have "s' = s4"
        by (simp add: tweet_def Let_def s4_def dr ir)
      with False show ?thesis by simp
    qed
  qed
qed

theorem recent_bound_after_tweet_witness:
  "0 \<le> recent_limit example_bot
   \<and> tweet example_bot example_world example_state =
       Inr \<lparr>queue_rows = [],
            recent_rows = [\<lparr>key = ''a.png'', detail = None, timestamp = 10\<rparr>],
            request_rows = [], clock = 11,
            journal = [Download_file ''gone.png'', Deleted queue_table ''gone.png'',
                       Download_file ''a.png'', Deleted queue_table ''a.png'',
                       Media_upload ''a.png'', Update_status None,
                       Inserted recent_queue_table ''a.png'',
                       Deleted_oldest recent_queue_table]\<rparr>
   \<and> (\<exists>t s1. download_latest example_bot example_world example_state = Inr (Some t, s1))
   \<and> count_rows recent_queue_table
        \<lparr>queue_rows = [],
         recent_rows = [\<lparr>key = ''a.png'', detail = None, timestamp = 10\<rparr>],
         request_rows = [], clock = 11,
         journal = [Download_file ''gone.png'', Deleted queue_table ''gone.png'',
                    Download_file ''a.png'', Deleted queue_table ''a.png'',
                    Media_upload ''a.png'', Update_status None,
                    Inserted recent_queue_table ''a.png'',
                    Deleted_oldest recent_queue_table]\<rparr>
       \<le> recent_limit example_bot"
proof -
  have h1: "0 \<le> recent_limit example_bot" by (simp add: example_bot_def)
  have h2: "tweet example_bot example_world example_state =
       Inr \<lparr>queue_rows = [],
            recent_rows = [\<lparr>key = ''a.png'', detail = None, timestamp = 10\<rparr>],
            request_rows = [], clock = 11,
            journal = [Download_file ''gone.png'', Deleted queue_table ''gone.png'',
                       Download_file ''a.png'', Deleted queue_table ''a.png'',
                       Media_upload ''a.png'', Update_status None,
                       Inserted recent_queue_table ''a.png'',
                       Deleted_oldest recent_queue_table]\<rparr>"
    by (simp add: example_defs run_defs eval_nat_numeral)
  have h3: "\<exists>t s1. download_latest example_bot example_world example_state = Inr (Some t, s1)"
    by (simp add: example_defs run_defs eval_nat_numeral)
  from h3 have h3': "(\<exists>t s1. download_latest example_bot example_world example_state
                        = Inr (Some t, s1))
     \<or> count_rows recent_queue_table example_state \<le> recent_limit example_bot" ..
  from recent_bound_after_tweet[OF h1 h2 h3'] h1 h2 h3 show ?thesis by blast
qed

text \<open>
  C2. The queue holds a row whose key has an apostrophe, \<open>it's.png\<close>, and it is the
  newest. \<open>download_latest\<close> fetches the file and hands the entry to \<open>tweet\<close>; the
  \<open>DELETE\<close> that \<open>delete_row\<close> builds for it is rejected, and \<open>tweet\<close> ends with that
  exception: the row is still in the queue, nothing was published, no row went into the
  recent table. The next call meets the same row.
\<close>

theorem tweet_apostrophe_key:
  "download_latest example_bot example_world example_apostrophe_state =
     Inr (Some (''it's.png'', None),
          emit (Download_file ''it's.png'') example_apostrophe_state)
   \<and> queue_rows (emit (Download_file ''it's.png'') example_apostrophe_state) =
       [\<lparr>key = ''a.png'', detail = None, timestamp = 4\<rparr>,
        \<lparr>key = ''it's.png'', detail = None, timestamp = 5\<rparr>]
   \<and> delete_row queue_table ''it's.png''
         (emit (Download_file ''it's.png'') example_apostrophe_state) = Inl ProgrammingError
   \<and> tweet example_bot example_world example_apostrophe_state = Inl ProgrammingError"
  by (simp add: example_defs run_defs eval_nat_numeral)

text \<open>
  For every key: once \<open>download_latest\<close> has handed over an entry whose key breaks the
  literal, \<open>tweet\<close> raises.
\<close>

lemma tweet_raises_on_apostrophe:
  "download_latest b w s = Inr (Some (f, c), s1) \<Longrightarrow> breaks_literal f \<Longrightarrow>
     tweet b w s = Inl ProgrammingError"
  by (simp add: tweet_def delete_row_def)

text \<open>
  For a key without an apostrophe, what \<open>tweet\<close> does once \<open>download_latest\<close> has handed
  over the entry is, in this order: the \<open>DELETE\<close> of the entry's rows from the queue,
  the calls of \<open>tweet_media\<close> (only \<open>media_upload\<close> and \<open>update_status\<close>), the \<open>INSERT\<close>
  of the key into the recent table, and the deletions of oldest recent rows; this for
  every answer of Twitter. No row of that key is left in the queue. And no call of
  \<open>tweet\<close>, whatever the key, inserts a row into the queue.
\<close>

lemma tweet_order_of_effects:
  "(\<forall>s'. tweet b w s = Inr s' \<longrightarrow> (\<forall>e\<in>set (events_since s s'). \<not> is_queue_insert e))
   \<and> (\<forall>f c s1. download_latest b w s = Inr (Some (f, c), s1) \<and> \<not> breaks_literal f \<longrightarrow>
        (let s2 = run_delete queue_table f s1;
             calls = events_since s2 (tweet_media b w f c s2)
         in \<exists>s'. tweet b w s = Inr s'
              \<and> events_since s1 s' =
                  Deleted queue_table f # calls @
                  Inserted recent_queue_table f #
                  replicate (nat (int (length (recent_rows s)) + 1 - recent_limit b))
                    (Deleted_oldest recent_queue_table)
              \<and> (\<forall>e\<in>set calls. is_media_upload e \<or> is_update_status e)
              \<and> queue_rows s' = filter (\<lambda>r. key r \<noteq> f) (queue_rows s1)))"
proof (intro conjI allI impI ballI)
  fix f c s1
  assume "download_latest b w s = Inr (Some (f, c), s1) \<and> \<not> breaks_literal f"
  then have dl: "download_latest b w s = Inr (Some (f, c), s1)"
    and nb: "\<not> breaks_literal f" by simp_all
  from nb have dr: "delete_row queue_table f s1 = Inr (run_delete queue_table f s1)"
    and ir: "insert_recent f x = Inr (put_recent f x)" for x
    by (simp_all add: delete_row_def insert_recent_def)
  from dl have "download_loop w (nat (max_download_attempts b)) s = Inr (Some (f, c), s1)"
    by (simp add: download_latest_def)
  from download_loop_frame[OF this] have frame: "recent_rows s1 = recent_rows s" by simp
  define s2 where "s2 = run_delete queue_table f s1"
  define calls where "calls = events_since s2 (tweet_media b w f c s2)"
  define s3 where "s3 = tweet_media b w f c s2"
  define s4 where "s4 = put_recent f s3"
  define k where "k = nat (int (length (recent_rows s)) + 1 - recent_limit b)"
  define s' where "s' = delete_oldest_rows k recent_queue_table s4"
  have rc: "count_rows recent_queue_table s4 = int (length (recent_rows s)) + 1"
    by (simp add: count_rows_def s4_def s3_def s2_def frame)
  have tw: "tweet b w s = Inr s'"
  proof (cases "count_rows recent_queue_table s4 > recent_limit b")
    case True
    then show ?thesis using dl rc
      by (simp add: tweet_def Let_def s'_def k_def s4_def s3_def s2_def dr ir)
  next
    case False
    with rc have "k = 0" by (simp add: k_def)
    then show ?thesis using dl rc False
      by (simp add: tweet_def Let_def s'_def s4_def s3_def s2_def dr ir)
  qed
  have j3: "journal s3 = journal s1 @ Deleted queue_table f # calls"
    unfolding s3_def calls_def using tweet_media_journal[of b w f c s2]
    by (simp add: s2_def)
  have j: "journal s' = journal s1 @ (Deleted queue_table f # calls @
             Inserted recent_queue_table f # replicate k (Deleted_oldest recent_queue_table))"
    by (simp add: s'_def s4_def j3)
  have ev: "events_since s1 s' = Deleted queue_table f # calls @
             Inserted recent_queue_table f # replicate k (Deleted_oldest recent_queue_table)"
    using j by (rule events_since_append)
  have cl: "\<forall>e\<in>set calls. is_media_upload e \<or> is_update_status e"
  proof
    fix e assume "e \<in> set calls"
    then have "e = Media_upload f \<or> e = Update_status c"
      unfolding calls_def by (rule tweet_media_events)
    then show "is_media_upload e \<or> is_update_status e" by auto
  qed
  have "rows_of queue_table s' = filter (\<lambda>r. key r \<noteq> f) (rows_of queue_table s1)"
    by (simp add: s'_def s4_def s3_def s2_def del: rows_of.simps)
  then have q: "queue_rows s' = filter (\<lambda>r. key r \<noteq> f) (queue_rows s1)" by simp
  show "let s2 = run_delete queue_table f s1;
             calls = events_since s2 (tweet_media b w f c s2)
         in \<exists>s'. tweet b w s = Inr s'
              \<and> events_since s1 s' =
                  Deleted queue_table f # calls @
                  Inserted recent_queue_table f #
                  replicate (nat (int (length (recent_rows s)) + 1 - recent_limit b))
                    (Deleted_oldest recent_queue_table)
              \<and> (\<forall>e\<in>set calls. is_media_upload e \<or> is_update_status e)
              \<and> queue_rows s' = filter (\<lambda>r. key r \<noteq> f) (queue_rows s1)"
    unfolding Let_def
    apply (rule exI[of _ s'])
    using tw ev cl q by (simp add: s2_def calls_def k_def)
next
  fix s' e
  assume tw: "tweet b w s = Inr s'" and e: "e \<in> set (events_since s s')"
  show "\<not> is_queue_insert e"
  proof (cases "download_latest b w s")
    case (Inl x)
    with tw show ?thesis by (simp add: tweet_def)
  next
    case (Inr p)
    obtain res s1 where p: "p = (res, s1)" by (cases p)
    with Inr have dl: "download_loop w (nat (max_download_attempts b)) s = Inr (res, s1)"
      by (simp add: download_latest_def)
    from download_loop_journal[OF dl] obtain es where
      es0: "journal s1 = journal s @ es" "\<forall>e\<in>set es. is_download_event e" by blast
    then have es: "journal s1 = journal s @ es" "\<forall>e\<in>set es. \<not> is_queue_insert e"
      using download_event_not_insert by blast+
    show ?thesis
    proof (cases res)
      case None
      with Inr p tw have "s' = s1" by (simp add: tweet_def)
      with es e show ?thesis by (simp add: events_since_def)
    next
      case (Some t)
      obtain f c where t: "t = (f, c)" by (cases t)
      from Inr p Some t tw have nb: "\<not> breaks_literal f"
        by (auto simp: tweet_def delete_row_def split: if_splits)
      then have dr: "delete_row queue_table f s1 = Inr (run_delete queue_table f s1)"
        and ir: "insert_recent f x = Inr (put_recent f x)" for x
        by (simp_all add: delete_row_def insert_recent_def)
      define s2 where "s2 = run_delete queue_table f s1"
      define s4 where "s4 = put_recent f (tweet_media b w f c s2)"
      from Inr p Some t tw obtain k where s': "s' = delete_oldest_rows k recent_queue_table s4"
        by (cases "count_rows recent_queue_table s4 > recent_limit b")
           (auto simp: tweet_def Let_def s4_def s2_def dr ir intro: that[of 0])
      have "journal s' = journal s @ (es @ Deleted queue_table f #
              events_since s2 (tweet_media b w f c s2) @
              Inserted recent_queue_table f # replicate k (Deleted_oldest recent_queue_table))"
        using tweet_media_journal[of b w f c s2]
        by (simp add: s' s4_def s2_def es)
      from events_since_append[OF this] e es(2) tweet_media_events[of e s2 b w f c]
      show ?thesis by auto
    qed
  qed
qed

lemma tweet_order_of_effects_example:
  "download_latest example_bot example_world example_state =
     Inr (Some (''a.png'', None),
       \<lparr>queue_rows = [\<lparr>key = ''a.png'', detail = None, timestamp = 5\<rparr>],
        recent_rows = [\<lparr>key = ''old.png'', detail = None, timestamp = 1\<rparr>],
        request_rows = [], clock = 10,
        journal = [Download_file ''gone.png'', Deleted queue_table ''gone.png'',
                   Download_file ''a.png'']\<rparr>)
   \<and> (\<exists>s'. tweet example_bot example_world example_state = Inr s'
         \<and> events_since
             \<lparr>queue_rows = [\<lparr>key = ''a.png'', detail = None, timestamp = 5\<rparr>],
              recent_rows = [\<lparr>key = ''old.png'', detail = None, timestamp = 1\<rparr>],
              request_rows = [], clock = 10,
              journal = [Download_file ''gone.png'', Deleted queue_table ''gone.png'',
                         Download_file ''a.png'']\<rparr> s'
             = [Deleted queue_table ''a.png'', Media_upload ''a.png'', Update_status None,
                Inserted recent_queue_table ''a.png'', Deleted_oldest recent_queue_table]
         \<and> queue_rows s' = []
         \<and> (\<forall>e\<in>set (events_since example_state s'). \<not> is_queue_insert e))"
  using tweet_order_of_effects [of example_bot example_world example_state]
  by (simp add: example_defs run_defs eval_nat_numeral)

section \<open>Failures of \<open>download_latest\<close>\<close>

text \<open>
  C7. The newest row of the queue has the key \<open>it's.png\<close>, and the file is not there
  locally. When \<open>download_file\<close> raises \<open>ClientError\<close> for it, the handler calls
  \<open>delete_row\<close>, whose \<open>DELETE\<close> is rejected: the row is not deleted, the loop does not
  go on to the row \<open>a.png\<close>, and \<open>download_latest\<close> ends with that exception instead of
  returning. The same happens in the handler of \<open>IsADirectoryError\<close>.
\<close>

theorem download_latest_apostrophe_key:
  "get_newest_row queue_table example_apostrophe_state
     = Some \<lparr>key = ''it's.png'', detail = None, timestamp = 5\<rparr>
   \<and> download_attempt (example_world\<lparr>download_file := (\<lambda>p. ClientError)\<rparr>)
         example_apostrophe_state = Raise ProgrammingError
   \<and> download_latest example_bot (example_world\<lparr>download_file := (\<lambda>p. ClientError)\<rparr>)
         example_apostrophe_state = Inl ProgrammingError
   \<and> download_attempt (example_world\<lparr>download_file := (\<lambda>p. IsADirectoryError)\<rparr>)
         example_apostrophe_state = Raise ProgrammingError
   \<and> download_latest example_bot (example_world\<lparr>download_file := (\<lambda>p. IsADirectoryError)\<rparr>)
         example_apostrophe_state = Inl ProgrammingError"
  by (simp add: example_defs run_defs eval_nat_numeral)

text \<open>
  For every key that breaks the literal: a failed download of the newest row makes
  the attempt, and with it \<open>download_latest\<close>, raise.
\<close>

lemma download_raises_on_apostrophe:
  "get_newest_row queue_table s = Some r \<Longrightarrow> \<not> isfile w (key r) \<Longrightarrow>
   download_file w (key r) \<noteq> Fetched \<Longrightarrow> breaks_literal (key r) \<Longrightarrow>
     download_loop w (Suc n) s = Inl ProgrammingError"
  by (cases "download_file w (key r)") (simp_all add: download_attempt_def delete_row_def)

text \<open>
  For a key without an apostrophe: when \<open>download_file\<close> raises \<open>ClientError\<close> for the
  newest row, its rows are deleted from the queue and the loop goes on with the attempts
  that remain; when it raises \<open>IsADirectoryError\<close>, its rows are deleted and \<open>None\<close> is
  returned at once. For every key: an entry is returned only if its file is there
  locally or was fetched; and when \<open>None\<close> is returned, \<open>tweet\<close> ends there: the recent
  table is as it was and no row was inserted into it.
\<close>

lemma download_failures_handled:
  "(get_newest_row queue_table s = Some r \<and> \<not> isfile w (key r)
      \<and> download_file w (key r) = ClientError \<and> \<not> breaks_literal (key r) \<longrightarrow>
      download_loop w (Suc n) s =
        download_loop w n (run_delete queue_table (key r) (emit (Download_file (key r)) s))
      \<and> key r \<notin> key ` set (queue_rows
           (run_delete queue_table (key r) (emit (Download_file (key r)) s))))
   \<and> (get_newest_row queue_table s = Some r \<and> \<not> isfile w (key r)
      \<and> download_file w (key r) = IsADirectoryError \<and> \<not> breaks_literal (key r) \<longrightarrow>
      download_loop w (Suc n) s =
        Inr (None, run_delete queue_table (key r) (emit (Download_file (key r)) s))
      \<and> key r \<notin> key ` set (queue_rows
           (run_delete queue_table (key r) (emit (Download_file (key r)) s))))
   \<and> (\<forall>f c s1. download_latest b w s = Inr (Some (f, c), s1) \<longrightarrow>
         isfile w f \<or> download_file w f = Fetched)
   \<and> (\<forall>s1. download_latest b w s = Inr (None, s1) \<longrightarrow>
         tweet b w s = Inr s1 \<and> recent_rows s1 = recent_rows s
         \<and> (\<forall>k. Inserted recent_queue_table k \<notin> set (events_since s s1)))"
proof (intro conjI allI impI)
  fix f c s1
  assume "download_latest b w s = Inr (Some (f, c), s1)"
  then show "isfile w f \<or> download_file w f = Fetched"
    unfolding download_latest_def by (rule download_loop_Some)
next
  fix s1
  assume dl: "download_latest b w s = Inr (None, s1)"
  then show "tweet b w s = Inr s1" by (simp add: tweet_def)
  from dl have l: "download_loop w (nat (max_download_attempts b)) s = Inr (None, s1)"
    by (simp add: download_latest_def)
  from download_loop_frame[OF l] show "recent_rows s1 = recent_rows s" by simp
  fix k
  from download_loop_journal[OF l] obtain es where
    es: "journal s1 = journal s @ es" "\<forall>e\<in>set es. is_download_event e" by blast
  from es(1) have "events_since s s1 = es" by (rule events_since_append)
  with es(2) download_event_not_insert
  show "Inserted recent_queue_table k \<notin> set (events_since s s1)" by blast
qed (auto simp: download_attempt_def Let_def delete_row_def queue_rows_run_delete)

lemma download_failures_handled_example:
  "get_newest_row queue_table example_state
     = Some \<lparr>key = ''gone.png'', detail = None, timestamp = 6\<rparr>
   \<and> \<not> isfile example_world ''gone.png''
   \<and> download_file example_world ''gone.png'' = ClientError
   \<and> download_loop example_world (Suc 2) example_state =
       download_loop example_world 2
         (run_delete queue_table ''gone.png'' (emit (Download_file ''gone.png'') example_state))
   \<and> get_newest_row queue_table example_dir_state
     = Some \<lparr>key = ''dir/'', detail = None, timestamp = 7\<rparr>
   \<and> \<not> isfile example_world ''dir/''
   \<and> download_file example_world ''dir/'' = IsADirectoryError
   \<and> download_latest example_bot example_world example_dir_state =
       Inr (None, run_delete queue_table ''dir/'' (emit (Download_file ''dir/'') example_dir_state))
   \<and> tweet example_bot example_world example_dir_state =
       Inr (run_delete queue_table ''dir/'' (emit (Download_file ''dir/'') example_dir_state))
   \<and> recent_rows (run_delete queue_table ''dir/''
                    (emit (Download_file ''dir/'') example_dir_state))
       = recent_rows example_dir_state
   \<and> download_latest example_bot example_world example_state =
       Inr (Some (''a.png'', None),
         \<lparr>queue_rows = [\<lparr>key = ''a.png'', detail = None, timestamp = 5\<rparr>],
          recent_rows = [\<lparr>key = ''old.png'', detail = None, timestamp = 1\<rparr>],
          request_rows = [], clock = 10,
          journal = [Download_file ''gone.png'', Deleted queue_table ''gone.png'',
                     Download_file ''a.png'']\<rparr>)
   \<and> (isfile example_world ''a.png'' \<or> download_file example_world ''a.png'' = Fetched)"
proof -
  have g1: "get_newest_row queue_table example_state
     = Some \<lparr>key = ''gone.png'', detail = None, timestamp = 6\<rparr>"
    by (simp add: example_defs get_newest_row_def)
  have g2: "\<not> isfile example_world ''gone.png''"
    "download_file example_world ''gone.png'' = ClientError"
    by (simp_all add: example_defs)
  have d1: "get_newest_row queue_table example_dir_state
     = Some \<lparr>key = ''dir/'', detail = None, timestamp = 7\<rparr>"
    by (simp add: example_defs get_newest_row_def)
  have d2: "\<not> isfile example_world ''dir/''"
    "download_file example_world ''dir/'' = IsADirectoryError"
    by (simp_all add: example_defs)
  have n3: "nat (max_download_attempts example_bot) = Suc 2"
    by (simp add: example_defs)
  have dl: "download_latest example_bot example_world example_state =
       Inr (Some (''a.png'', None),
         \<lparr>queue_rows = [\<lparr>key = ''a.png'', detail = None, timestamp = 5\<rparr>],
          recent_rows = [\<lparr>key = ''old.png'', detail = None, timestamp = 1\<rparr>],
          request_rows = [], clock = 10,
          journal = [Download_file ''gone.png'', Deleted queue_table ''gone.png'',
                     Download_file ''a.png'']\<rparr>)"
    by (simp add: example_defs run_defs eval_nat_numeral)
  note A = download_failures_handled
             [where s = example_state
                and r = "\<lparr>key = ''gone.png'', detail = None, timestamp = 6\<rparr>"
                and w = example_world and n = 2 and b = example_bot]
  note B = download_failures_handled
             [where s = example_dir_state
                and r = "\<lparr>key = ''dir/'', detail = None, timestamp = 7\<rparr>"
                and w = example_world and n = 2 and b = example_bot]
  have nb: "\<not> breaks_literal ''gone.png''" "\<not> breaks_literal ''dir/''"
    by (simp_all add: breaks_literal_def)
  from A g1 g2 nb have a: "download_loop example_world (Suc 2) example_state =
       download_loop example_world 2
         (run_delete queue_table ''gone.png'' (emit (Download_file ''gone.png'') example_state))"
    by simp
  from A dl have a2: "isfile example_world ''a.png'' \<or> download_file example_world ''a.png'' = Fetched"
    by blast
  from B d1 d2 nb have b1: "download_latest example_bot example_world example_dir_state =
       Inr (None, run_delete queue_table ''dir/'' (emit (Download_file ''dir/'') example_dir_state))"
    by (simp add: download_latest_def n3)
  with B have b2: "tweet example_bot example_world example_dir_state =
       Inr (run_delete queue_table ''dir/'' (emit (Download_file ''dir/'') example_dir_state))"
     "recent_rows (run_delete queue_table ''dir/''
                    (emit (Download_file ''dir/'') example_dir_state))
       = recent_rows example_dir_state"
    by blast+
  from g1 g2 d1 d2 a a2 b1 b2 dl show ?thesis by blast
qed

text \<open>
  C10. \<open>download_latest\<close> ends with the \<open>TypeError\<close> of \<open>row[0]\<close> on \<open>None\<close> exactly when
  one of its attempts starts on an empty queue. The only other exception that leaves it
  is the one \<open>delete_row\<close> raises for a key with an apostrophe.
\<close>

theorem download_latest_fault_iff:
  "(download_latest b w s = Inl TypeError \<longleftrightarrow>
      (\<exists>s1\<in>set (attempt_starts w (nat (max_download_attempts b)) s). queue_rows s1 = []))
   \<and> (download_latest b w s = Inl e \<longrightarrow> e = TypeError \<or> e = ProgrammingError)"
  unfolding download_latest_def
  using download_loop_fault download_loop_fault_which by blast

theorem download_latest_fault_iff_witness:
  "(\<exists>s1\<in>set (attempt_starts example_world (nat (max_download_attempts example_bot))
                example_gone_state). queue_rows s1 = [])
   \<and> download_latest example_bot example_world example_gone_state = Inl TypeError"
proof -
  have h: "\<exists>s1\<in>set (attempt_starts example_world (nat (max_download_attempts example_bot))
                example_gone_state). queue_rows s1 = []"
    by (simp add: example_defs run_defs eval_nat_numeral)
  with download_latest_fault_iff[of example_bot example_world example_gone_state]
  show ?thesis by simp
qed

section \<open>The queue built by \<open>smart_queue\<close>\<close>

lemma pop_to_front_eq:
  "n \<le> length temp \<Longrightarrow>
     pop_to_front n new_queue temp =
       Inr (new_queue @ rev (drop (length temp - n) temp), take (length temp - n) temp)"
proof (induction n arbitrary: new_queue temp)
  case 0
  then show ?case by simp
next
  case (Suc n)
  then have "temp \<noteq> []" by auto
  then obtain ys y where temp: "temp = ys @ [y]" by (cases temp rule: rev_cases) auto
  with Suc.prems have n: "n \<le> length ys" by simp
  from Suc.IH[OF n, of "new_queue @ [y]"] n show ?case
    by (simp add: temp)
qed

lemma permutes_length: "permutes sh \<Longrightarrow> length (sh xs) = length xs"
  unfolding permutes_def by (metis size_mset)

lemma permutes_set: "permutes sh \<Longrightarrow> set (sh xs) = set xs"
  unfolding permutes_def by (metis set_mset_mset)

lemma permutes_distinct: "permutes sh \<Longrightarrow> distinct (sh xs) = distinct xs"
  unfolding permutes_def by (metis mset_eq_imp_distinct_iff)

lemma build_new_queue_eq:
  assumes "permutes first_shuffle"
  shows "build_new_queue b first_shuffle second_shuffle recent_queue file_pool =
     (let temp = first_shuffle (filter (\<lambda>row. row \<notin> set recent_queue) file_pool);
          n = front_size b recent_queue file_pool
      in Inr (rev (drop (length temp - n) temp) @
              second_shuffle (take (length temp - n) temp @
                        filter (\<lambda>row. row \<in> set recent_queue) file_pool)))"
proof -
  define temp where "temp = first_shuffle (filter (\<lambda>row. row \<notin> set recent_queue) file_pool)"
  have len: "length temp = length (filter (\<lambda>row. row \<notin> set recent_queue) file_pool)"
    unfolding temp_def using assms by (rule permutes_length)
  define n where "n = nat (if int (length temp) < recent_limit b then int (length temp)
                           else recent_limit b)"
  have n: "n = front_size b recent_queue file_pool"
    unfolding n_def front_size_def len min_def by auto
  have "n \<le> length temp" unfolding n_def by auto
  from pop_to_front_eq[OF this, of "[]"]
  have "pop_to_front n [] temp =
          Inr (rev (drop (length temp - n) temp), take (length temp - n) temp)" by simp
  then show ?thesis
    unfolding build_new_queue_def Let_def temp_def[symmetric] n_def[symmetric] n[symmetric]
    by simp
qed

lemma build_new_queue_mset:
  assumes "permutes first_shuffle" "permutes second_shuffle"
    and "build_new_queue b first_shuffle second_shuffle recent_queue file_pool = Inr new_queue"
  shows "mset new_queue = mset file_pool"
proof -
  define temp where "temp = first_shuffle (filter (\<lambda>row. row \<notin> set recent_queue) file_pool)"
  define n where "n = front_size b recent_queue file_pool"
  from assms(3) build_new_queue_eq[OF assms(1), of b second_shuffle recent_queue file_pool]
  have nq: "new_queue = rev (drop (length temp - n) temp) @
              second_shuffle (take (length temp - n) temp @
                        filter (\<lambda>row. row \<in> set recent_queue) file_pool)"
    by (simp add: Let_def temp_def n_def)
  have "mset new_queue = mset (drop (length temp - n) temp) + (mset (take (length temp - n) temp)
          + mset (filter (\<lambda>row. row \<in> set recent_queue) file_pool))"
    using assms(2) by (simp add: nq permutes_def)
  also have "\<dots> = mset (take (length temp - n) temp @ drop (length temp - n) temp)
          + mset (filter (\<lambda>row. row \<in> set recent_queue) file_pool)"
    by (simp del: append_take_drop_id)
  also have "\<dots> = mset temp + mset (filter (\<lambda>row. row \<in> set recent_queue) file_pool)"
    by simp
  also have "\<dots> = mset (filter (\<lambda>row. row \<notin> set recent_queue) file_pool)
          + mset (filter (\<lambda>row. row \<in> set recent_queue) file_pool)"
    using assms(1) by (simp add: temp_def permutes_def)
  also have "\<dots> = mset file_pool"
    by (induction file_pool) auto
  finally show ?thesis .
qed

lemma build_new_queue_front:
  assumes "permutes first_shuffle" "distinct file_pool"
    and "build_new_queue b first_shuffle second_shuffle recent_queue file_pool = Inr new_queue"
  shows "distinct (take (front_size b recent_queue file_pool) new_queue)
     \<and> set (take (front_size b recent_queue file_pool) new_queue)
         \<subseteq> set file_pool - set recent_queue
     \<and> length (take (front_size b recent_queue file_pool) new_queue)
         = front_size b recent_queue file_pool"
proof -
  define temp where "temp = first_shuffle (filter (\<lambda>row. row \<notin> set recent_queue) file_pool)"
  define n where "n = front_size b recent_queue file_pool"
  have len: "length temp = length (filter (\<lambda>row. row \<notin> set recent_queue) file_pool)"
    unfolding temp_def using assms(1) by (rule permutes_length)
  have nle: "n \<le> length temp" unfolding n_def front_size_def len by auto
  from assms(3) build_new_queue_eq[OF assms(1), of b second_shuffle recent_queue file_pool]
  have nq: "new_queue = rev (drop (length temp - n) temp) @
              second_shuffle (take (length temp - n) temp @
                        filter (\<lambda>row. row \<in> set recent_queue) file_pool)"
    by (simp add: Let_def temp_def n_def)
  have lf: "length (rev (drop (length temp - n) temp)) = n" using nle by simp
  have tk: "take n new_queue = rev (drop (length temp - n) temp)"
    unfolding nq using lf by simp
  have dt: "distinct temp"
    unfolding temp_def using assms(1,2) by (simp add: permutes_distinct)
  have st: "set temp = set file_pool - set recent_queue"
    unfolding temp_def using assms(1) by (auto simp: permutes_set)
  have "set (drop (length temp - n) temp) \<subseteq> set temp" by (rule set_drop_subset)
  with dt st lf show ?thesis unfolding n_def[symmetric] tk by simp
qed

lemma insert_queue_rows_eq:
  "queue_rows (insert_queue_rows fps s) = queue_rows s @ stamped_rows (clock s) fps
   \<and> recent_rows (insert_queue_rows fps s) = recent_rows s
   \<and> request_rows (insert_queue_rows fps s) = request_rows s
   \<and> clock (insert_queue_rows fps s) = clock s + int (length fps)"
  by (induction fps arbitrary: s) (simp_all add: now_def insert_row_def emit_def)

lemma key_stamped_rows [simp]: "map key (stamped_rows c fps) = fps"
  by (induction fps arbitrary: c) simp_all

lemma timestamp_stamped_rows:
  "r \<in> set (stamped_rows c fps) \<Longrightarrow> c \<le> timestamp r"
  by (induction fps arbitrary: c) force+

lemma sorted_stamped_rows: "sorted (map timestamp (stamped_rows c fps))"
proof (induction fps arbitrary: c)
  case Nil
  then show ?case by simp
next
  case (Cons a fps)
  have "\<forall>r\<in>set (stamped_rows (c + 1) fps). c \<le> timestamp r"
    using timestamp_stamped_rows[of _ "c + 1" fps] by force
  with Cons.IH[of "c + 1"] show ?case by simp
qed

lemma insort_key_append_greater:
  "\<forall>y\<in>set ys. f x < f y \<Longrightarrow> insort_key f x (zs @ ys) = insort_key f x zs @ ys"
proof (induction zs)
  case Nil
  then show ?case by (cases ys) auto
next
  case (Cons z zs)
  then show ?case by simp
qed

lemma sort_key_append_newer:
  assumes "\<forall>x\<in>set xs. \<forall>y\<in>set ys. f x < f y" and "sorted (map f ys)"
  shows "sort_key f (xs @ ys) = sort_key f xs @ ys"
  using assms(1)
proof (induction xs)
  case Nil
  from assms(2) show ?case by (simp add: sort_key_id_if_sorted)
next
  case (Cons x xs)
  then have IH: "sort_key f (xs @ ys) = sort_key f xs @ ys" by simp
  from Cons.prems have "\<forall>y\<in>set ys. f x < f y" by simp
  then have "insort_key f x (sort_key f xs @ ys) = insort_key f x (sort_key f xs) @ ys"
    by (rule insort_key_append_greater)
  with IH show ?case by simp
qed

lemma smart_queue_Inr:
  assumes "permutes sha" and "resp ''Contents'' = Some contents"
  shows "\<exists>new_queue.
     build_new_queue b sha shb (map key (recent_rows s)) (file_pool_of contents)
       = Inr new_queue
     \<and> smart_queue b sha shb resp s = Inr (insert_queue_rows (rev new_queue) s)"
  using build_new_queue_eq[OF assms(1), of b shb "map key (recent_rows s)"
          "file_pool_of contents"] assms(2)
  by (simp add: smart_queue_def get_table_contents_def Let_def)

lemma front_size_card:
  assumes "distinct file_pool"
  shows "front_size b recent_queue file_pool =
           nat (min (int (card (set file_pool - set recent_queue))) (recent_limit b))"
proof -
  have "set (filter (\<lambda>k. k \<notin> set recent_queue) file_pool) = set file_pool - set recent_queue"
    by auto
  moreover have "distinct (filter (\<lambda>k. k \<notin> set recent_queue) file_pool)"
    using assms by simp
  ultimately have "card (set file_pool - set recent_queue)
      = length (filter (\<lambda>k. k \<notin> set recent_queue) file_pool)"
    by (metis distinct_card)
  then show ?thesis by (simp add: front_size_def)
qed

lemma permutes_rev: "permutes rev"
  by (simp add: permutes_def)

text \<open>
  C1. For a listing without repeated keys, a first shuffle that permutes, and a queue
  whose rows are older than the clock: \<open>smart_queue\<close> returns, and with
  \<open>n = min(|P - R|, recent_limit)\<close>, where \<open>P\<close> is the set of file keys listed and \<open>R\<close>
  the set of keys in the recent table, the \<open>n\<close> rows of newest timestamp in the queue
  table carry \<open>n\<close> distinct keys, all from \<open>P - R\<close>. The size of \<open>R\<close> plays no part.
\<close>

theorem smart_queue_front_is_fresh:
  assumes "permutes first_shuffle"
    and "response ''Contents'' = Some contents"
    and "distinct (map Key contents)"
    and "\<forall>r\<in>set (queue_rows s). timestamp r < clock s"
  shows "\<exists>s'. smart_queue b first_shuffle second_shuffle response s = Inr s'
     \<and> (let pool = set (file_pool_of contents);
             recent = set (map key (recent_rows s));
             n = nat (min (int (card (pool - recent))) (recent_limit b));
             front = take n (map key (newest_first (queue_rows s')))
         in length front = n \<and> distinct front \<and> set front \<subseteq> pool - recent)"
proof -
  from smart_queue_Inr[where resp = response and b = b and shb = second_shuffle and s = s, OF assms(1,2)] obtain new_queue where
    bq: "build_new_queue b first_shuffle second_shuffle (map key (recent_rows s)) (file_pool_of contents)
           = Inr new_queue"
    and sq: "smart_queue b first_shuffle second_shuffle response s
           = Inr (insert_queue_rows (rev new_queue) s)" by blast
  define s' where "s' = insert_queue_rows (rev new_queue) s"
  define new_rows where "new_rows = stamped_rows (clock s) (rev new_queue)"
  define n where "n = front_size b (map key (recent_rows s)) (file_pool_of contents)"
  have q: "queue_rows s' = queue_rows s @ new_rows"
    by (simp add: insert_queue_rows_eq new_rows_def s'_def)
  have older: "\<forall>x\<in>set (queue_rows s). \<forall>y\<in>set new_rows. timestamp x < timestamp y"
    using assms(4) timestamp_stamped_rows[of _ "clock s" "rev new_queue"]
    unfolding new_rows_def by fastforce
  have "sort_key timestamp (queue_rows s @ new_rows)
          = sort_key timestamp (queue_rows s) @ new_rows"
    using older unfolding new_rows_def
    by (rule sort_key_append_newer) (rule sorted_stamped_rows)
  then have nf: "map key (newest_first (queue_rows s'))
          = new_queue @ map key (rev (sort_key timestamp (queue_rows s)))"
    by (simp add: newest_first_def q new_rows_def rev_map[symmetric])
  have dp: "distinct (file_pool_of contents)"
    using assms(3) by (simp add: file_pool_of_def)
  have nc: "nat (min (int (card (set (file_pool_of contents) - set (map key (recent_rows s)))))
                     (recent_limit b)) = n"
    unfolding n_def using dp by (rule front_size_card[symmetric])
  from build_new_queue_front[OF assms(1) dp bq]
  have fr: "distinct (take n new_queue)"
    "set (take n new_queue) \<subseteq> set (file_pool_of contents) - set (map key (recent_rows s))"
    "length (take n new_queue) = n"
    unfolding n_def by blast+
  from fr(3) have "n \<le> length new_queue" by simp
  then have tk: "take n (map key (newest_first (queue_rows s'))) = take n new_queue"
    by (simp add: nf)
  show ?thesis
    apply (rule exI[of _ s'])
    unfolding Let_def nc tk
    using sq fr by (simp add: s'_def)
qed

theorem smart_queue_front_is_fresh_witness:
  "permutes rev
   \<and> example_listing ''Contents'' = Some
       [\<lparr>Key = ''img/''\<rparr>, \<lparr>Key = ''img/a''\<rparr>, \<lparr>Key = ''img/b''\<rparr>, \<lparr>Key = ''img/c''\<rparr>,
        \<lparr>Key = ''img/d''\<rparr>, \<lparr>Key = ''img/e''\<rparr>]
   \<and> distinct (map Key
       [\<lparr>Key = ''img/''\<rparr>, \<lparr>Key = ''img/a''\<rparr>, \<lparr>Key = ''img/b''\<rparr>, \<lparr>Key = ''img/c''\<rparr>,
        \<lparr>Key = ''img/d''\<rparr>, \<lparr>Key = ''img/e''\<rparr>])
   \<and> queue_rows example_recent_state = []
   \<and> smart_queue (example_bot\<lparr>recent_limit := 2\<rparr>) rev rev example_listing
        example_recent_state = Inr example_built_state
   \<and> take 2 (map key (newest_first (queue_rows example_built_state))) = [''img/a'', ''img/b'']
   \<and> (\<exists>s'. smart_queue (example_bot\<lparr>recent_limit := 2\<rparr>) rev rev example_listing
               example_recent_state = Inr s'
         \<and> (let pool = set (file_pool_of
                  [\<lparr>Key = ''img/''\<rparr>, \<lparr>Key = ''img/a''\<rparr>, \<lparr>Key = ''img/b''\<rparr>,
                   \<lparr>Key = ''img/c''\<rparr>, \<lparr>Key = ''img/d''\<rparr>, \<lparr>Key = ''img/e''\<rparr>]);
                 recent = set (map key (recent_rows example_recent_state));
                 n = nat (min (int (card (pool - recent)))
                       (recent_limit (example_bot\<lparr>recent_limit := 2\<rparr>)));
                 front = take n (map key (newest_first (queue_rows s')))
             in length front = n \<and> distinct front \<and> set front \<subseteq> pool - recent))"
proof -
  have h1: "permutes rev" by (rule permutes_rev)
  have h2: "example_listing ''Contents'' = Some
       [\<lparr>Key = ''img/''\<rparr>, \<lparr>Key = ''img/a''\<rparr>, \<lparr>Key = ''img/b''\<rparr>, \<lparr>Key = ''img/c''\<rparr>,
        \<lparr>Key = ''img/d''\<rparr>, \<lparr>Key = ''img/e''\<rparr>]"
    by (simp add: example_listing_def)
  have h3: "distinct (map Key
       [\<lparr>Key = ''img/''\<rparr>, \<lparr>Key = ''img/a''\<rparr>, \<lparr>Key = ''img/b''\<rparr>, \<lparr>Key = ''img/c''\<rparr>,
        \<lparr>Key = ''img/d''\<rparr>, \<lparr>Key = ''img/e''\<rparr>])"
    by simp
  have h4: "\<forall>r\<in>set (queue_rows example_recent_state).
              timestamp r < clock example_recent_state"
    by (simp add: example_recent_state_def)
  have e1: "smart_queue (example_bot\<lparr>recent_limit := 2\<rparr>) rev rev example_listing
        example_recent_state = Inr example_built_state"
    by (simp add: queue_defs eval_nat_numeral)
  have e2: "take 2 (map key (newest_first (queue_rows example_built_state)))
        = [''img/a'', ''img/b'']"
    by (simp add: queue_defs eval_nat_numeral)
  note t = smart_queue_front_is_fresh
      [where response = example_listing and second_shuffle = rev
         and b = "example_bot\<lparr>recent_limit := 2\<rparr>", OF h1 h2 h3 h4]
  have h5: "queue_rows example_recent_state = []"
    by (simp add: example_recent_state_def)
  from h1 h2 h3 h5 e1 e2 t show ?thesis by blast
qed

text \<open>
  C6. When the listing has a \<open>Contents\<close> entry and both shuffles permute, \<open>smart_queue\<close>
  appends rows to the queue table whose keys are, with multiplicity, the file keys of
  the listing (the keys that do not end in \<open>/\<close>): every new key is listed, a key that is
  in the recent table but not in the listing is in no new row, and when no key is
  listed twice no key is inserted twice.
\<close>

theorem smart_queue_only_live_keys:
  assumes "permutes first_shuffle" and "permutes second_shuffle"
    and "response ''Contents'' = Some contents"
  shows "\<exists>s' new_rows.
     smart_queue b first_shuffle second_shuffle response s = Inr s'
     \<and> queue_rows s' = queue_rows s @ new_rows
     \<and> mset (map key new_rows) = mset (file_pool_of contents)
     \<and> set (map key new_rows) \<subseteq> set (map Key contents)
     \<and> (\<forall>k. k \<in> set (map key (recent_rows s)) \<and> k \<notin> set (map Key contents)
             \<longrightarrow> k \<notin> set (map key new_rows))
     \<and> (distinct (map Key contents) \<longrightarrow> distinct (map key new_rows))"
proof -
  from smart_queue_Inr[where resp = response and b = b and shb = second_shuffle and s = s, OF assms(1,3)] obtain new_queue where
    bq: "build_new_queue b first_shuffle second_shuffle (map key (recent_rows s)) (file_pool_of contents)
           = Inr new_queue"
    and sq: "smart_queue b first_shuffle second_shuffle response s
           = Inr (insert_queue_rows (rev new_queue) s)" by blast
  define new_rows where "new_rows = stamped_rows (clock s) (rev new_queue)"
  have q: "queue_rows (insert_queue_rows (rev new_queue) s) = queue_rows s @ new_rows"
    by (simp add: insert_queue_rows_eq new_rows_def)
  have m: "mset (map key new_rows) = mset (file_pool_of contents)"
    using build_new_queue_mset[OF assms(1,2) bq] by (simp add: new_rows_def)
  then have st: "set (map key new_rows) = set (file_pool_of contents)"
    by (rule mset_eq_setD)
  have sub: "set (file_pool_of contents) \<subseteq> set (map Key contents)"
    by (auto simp: file_pool_of_def)
  have d: "distinct (map Key contents) \<longrightarrow> distinct (map key new_rows)"
  proof
    assume "distinct (map Key contents)"
    then have "distinct (file_pool_of contents)" by (simp add: file_pool_of_def)
    with m show "distinct (map key new_rows)" by (metis mset_eq_imp_distinct_iff)
  qed
  from sq q m st sub d show ?thesis by blast
qed

theorem smart_queue_only_live_keys_witness:
  "permutes rev
   \<and> example_listing ''Contents'' = Some
       [\<lparr>Key = ''img/''\<rparr>, \<lparr>Key = ''img/a''\<rparr>, \<lparr>Key = ''img/b''\<rparr>, \<lparr>Key = ''img/c''\<rparr>,
        \<lparr>Key = ''img/d''\<rparr>, \<lparr>Key = ''img/e''\<rparr>]
   \<and> ''img/dead'' \<in> set (map key (recent_rows example_recent_state))
   \<and> smart_queue (example_bot\<lparr>recent_limit := 2\<rparr>) rev rev example_listing
        example_recent_state = Inr example_built_state
   \<and> ''img/dead'' \<notin> set (map key (queue_rows example_built_state))
   \<and> (\<exists>s' new_rows.
        smart_queue (example_bot\<lparr>recent_limit := 2\<rparr>) rev rev example_listing
          example_recent_state = Inr s'
        \<and> queue_rows s' = queue_rows example_recent_state @ new_rows
        \<and> mset (map key new_rows) = mset (file_pool_of
             [\<lparr>Key = ''img/''\<rparr>, \<lparr>Key = ''img/a''\<rparr>, \<lparr>Key = ''img/b''\<rparr>,
              \<lparr>Key = ''img/c''\<rparr>, \<lparr>Key = ''img/d''\<rparr>, \<lparr>Key = ''img/e''\<rparr>])
        \<and> ''img/dead'' \<notin> set (map key new_rows))"
proof -
  have h1: "permutes rev" by (rule permutes_rev)
  have h2: "example_listing ''Contents'' = Some
       [\<lparr>Key = ''img/''\<rparr>, \<lparr>Key = ''img/a''\<rparr>, \<lparr>Key = ''img/b''\<rparr>, \<lparr>Key = ''img/c''\<rparr>,
        \<lparr>Key = ''img/d''\<rparr>, \<lparr>Key = ''img/e''\<rparr>]"
    by (simp add: example_listing_def)
  have d1: "''img/dead'' \<in> set (map key (recent_rows example_recent_state))"
    by (simp add: example_recent_state_def)
  have d2: "''img/dead'' \<notin> set (map Key
       [\<lparr>Key = ''img/''\<rparr>, \<lparr>Key = ''img/a''\<rparr>, \<lparr>Key = ''img/b''\<rparr>, \<lparr>Key = ''img/c''\<rparr>,
        \<lparr>Key = ''img/d''\<rparr>, \<lparr>Key = ''img/e''\<rparr>])"
    by simp
  have e1: "smart_queue (example_bot\<lparr>recent_limit := 2\<rparr>) rev rev example_listing
        example_recent_state = Inr example_built_state"
    by (simp add: queue_defs eval_nat_numeral)
  have e2: "''img/dead'' \<notin> set (map key (queue_rows example_built_state))"
    by (simp add: example_built_state_def)
  note t = smart_queue_only_live_keys
      [where response = example_listing and s = example_recent_state
         and b = "example_bot\<lparr>recent_limit := 2\<rparr>", OF h1 h1 h2]
  from t d1 d2 have "\<exists>s' new_rows.
        smart_queue (example_bot\<lparr>recent_limit := 2\<rparr>) rev rev example_listing
          example_recent_state = Inr s'
        \<and> queue_rows s' = queue_rows example_recent_state @ new_rows
        \<and> mset (map key new_rows) = mset (file_pool_of
             [\<lparr>Key = ''img/''\<rparr>, \<lparr>Key = ''img/a''\<rparr>, \<lparr>Key = ''img/b''\<rparr>,
              \<lparr>Key = ''img/c''\<rparr>, \<lparr>Key = ''img/d''\<rparr>, \<lparr>Key = ''img/e''\<rparr>])
        \<and> ''img/dead'' \<notin> set (map key new_rows)"
    by blast
  with h1 h2 d1 e1 e2 show ?thesis by blast
qed

text \<open>
  C8. S3 answers a listing that matches no object with a dictionary that has no
  \<open>Contents\<close> entry. On that answer \<open>smart_queue\<close> writes no row, but it does not
  complete: \<open>response['Contents']\<close> raises \<open>KeyError\<close>.
\<close>

theorem smart_queue_empty_listing:
  "smart_queue b first_shuffle second_shuffle Map.empty s = Inl KeyError"
  by (simp add: smart_queue_def)

text \<open>
  When the entry is there and holds no file key (no object, or folders only),
  \<open>smart_queue\<close> returns and leaves the state as it was.
\<close>

lemma smart_queue_no_files:
  assumes "permutes first_shuffle" and "permutes second_shuffle"
    and "response ''Contents'' = Some contents" and "file_pool_of contents = []"
  shows "smart_queue b first_shuffle second_shuffle response s = Inr s"
proof -
  from smart_queue_Inr[where resp = response and b = b and shb = second_shuffle and s = s, OF assms(1,3)] obtain new_queue where
    bq: "build_new_queue b first_shuffle second_shuffle (map key (recent_rows s)) (file_pool_of contents)
           = Inr new_queue"
    and sq: "smart_queue b first_shuffle second_shuffle response s
           = Inr (insert_queue_rows (rev new_queue) s)" by blast
  from build_new_queue_mset[OF assms(1,2) bq] assms(4) have "new_queue = []" by simp
  with sq show ?thesis by simp
qed

section \<open>Follow requests are sent once\<close>

lemma live_after_append:
  "live_after L (es @ fs) = live_after (live_after L es) fs"
proof (induction es arbitrary: L)
  case Nil
  then show ?case by simp
next
  case (Cons e es)
  show ?case
  proof (cases e)
    case (Inserted t i)
    with Cons show ?thesis by (cases t) simp_all
  next
    case (Deleted t i)
    with Cons show ?thesis by (cases t) simp_all
  qed (use Cons in simp_all)
qed

lemma follows_only_new_append:
  "follows_only_new L (es @ fs) =
     (follows_only_new L es \<and> follows_only_new (live_after L es) fs)"
proof (induction es arbitrary: L)
  case Nil
  then show ?case by simp
next
  case (Cons e es)
  show ?case
  proof (cases e)
    case (Inserted t i)
    with Cons show ?thesis by (cases t) simp_all
  next
    case (Deleted t i)
    with Cons show ?thesis by (cases t) simp_all
  qed (use Cons in simp_all)
qed

lemma trackedI:
  assumes "journal s' = journal s @ es" "follows_only_new (live_ids s) es"
    "live_after (live_ids s) es = live_ids s'"
  shows "tracked s s'"
proof -
  from assms(1) have "events_since s s' = es" by (rule events_since_append)
  with assms show ?thesis by (simp add: tracked_def)
qed

lemma tracked_refl: "tracked s s"
  by (rule trackedI[where es = "[]"]) simp_all

lemma tracked_trans:
  assumes "tracked s s1" "tracked s1 s2"
  shows "tracked s s2"
proof (rule trackedI[where es = "events_since s s1 @ events_since s1 s2"])
  from assms show "journal s2 = journal s @ events_since s s1 @ events_since s1 s2"
    by (simp add: tracked_def)
  from assms show "follows_only_new (live_ids s) (events_since s s1 @ events_since s1 s2)"
    by (simp add: tracked_def follows_only_new_append)
  from assms show "live_after (live_ids s) (events_since s s1 @ events_since s1 s2) = live_ids s2"
    by (simp add: tracked_def live_after_append)
qed

lemma update_request_sent_simps:
  "journal (update_request_sent i name s) = journal s @ [Inserted request_sent_table i]"
  "request_rows (update_request_sent i name s) =
     request_rows s @ [\<lparr>key = i, detail = Some name, timestamp = clock s\<rparr>]"
  "queue_rows (update_request_sent i name s) = queue_rows s"
  "recent_rows (update_request_sent i name s) = recent_rows s"
  by (simp_all add: update_request_sent_def now_def insert_row_def emit_def)

lemma follow_one_rows:
  "request_rows (follow_one (f, outcome) s) =
     (if \<not> request_sent (id_str f) s
         \<and> (outcome = Followed \<or> outcome = Follow_error (Some 403))
      then request_rows s @
             [\<lparr>key = id_str f, detail = Some (screen_name f), timestamp = clock s\<rparr>]
      else request_rows s)"
  by (auto simp: follow_one_def Let_def update_request_sent_simps
           split: follow_outcome.splits option.splits)

lemma follow_one_journal:
  "journal (follow_one (f, outcome) s) = journal s @
     (if request_sent (id_str f) s then []
      else if outcome = Followed \<or> outcome = Follow_error (Some 403)
      then [Follow (id_str f), Inserted request_sent_table (id_str f)]
      else [Follow (id_str f)])"
  by (auto simp: follow_one_def Let_def update_request_sent_simps
           split: follow_outcome.splits option.splits)

lemma tracked_follow_one: "tracked s (follow_one p s)"
proof -
  obtain f outcome where p: "p = (f, outcome)" by (cases p)
  show ?thesis
    unfolding p
    by (rule trackedI[OF follow_one_journal])
       (auto simp: follow_one_rows live_ids_def request_sent_def)
qed

lemma tracked_follow_loop: "tracked s (follow_loop ps s)"
proof (induction ps arbitrary: s)
  case Nil
  then show ?case by (simp add: tracked_refl)
next
  case (Cons p ps)
  have "tracked s (follow_one p s)" by (rule tracked_follow_one)
  moreover have "tracked (follow_one p s) (follow_loop ps (follow_one p s))" by (rule Cons.IH)
  ultimately show ?case by (simp add: tracked_trans)
qed

lemma tracked_follow_back: "tracked s (follow_back answer s)"
  by (cases answer) (simp_all add: tracked_follow_loop tracked_refl)

lemma tracked_emit_unfollow: "tracked s (emit (Unfollow i) s)"
  by (rule trackedI[where es = "[Unfollow i]"]) (simp_all add: live_ids_def)

lemma tracked_delete_request: "tracked s (run_delete request_sent_table i s)"
  by (rule trackedI[where es = "[Deleted request_sent_table i]"])
     (auto simp: live_ids_def run_delete_def emit_def)

lemma tracked_unfollow_loop: "tracked s (unfollow_loop followers friends k s)"
proof (induction followers friends k s rule: unfollow_loop.induct)
  case (1 followers not_following s)
  then show ?case by (simp add: tracked_refl)
next
  case (2 followers friend outcome rest not_following s)
  show ?case
  proof (cases "friend \<in> set followers")
    case True
    with 2 show ?thesis by simp
  next
    case False
    show ?thesis
    proof (cases outcome)
      case Unfollowed
      show ?thesis
      proof (cases "breaks_literal friend")
        case True
        then have "delete_row request_sent_table friend (emit (Unfollow friend) s)
                     = Inl ProgrammingError"
          by (simp add: delete_row_def)
        with False Unfollowed show ?thesis by (simp add: tracked_emit_unfollow)
      next
        case nb: False
        define s1 where
          "s1 = run_delete request_sent_table friend (emit (Unfollow friend) s)"
        from nb have dr: "delete_row request_sent_table friend (emit (Unfollow friend) s)
                            = Inr s1"
          by (simp add: delete_row_def s1_def)
        have t1: "tracked s s1"
          unfolding s1_def
          by (rule tracked_trans[OF tracked_emit_unfollow tracked_delete_request])
        show ?thesis
        proof (cases "not_following + 1 \<ge> 180")
          case True
          with False Unfollowed t1 dr show ?thesis by simp
        next
          case n: False
          from 2(1)[OF False Unfollowed dr n]
          have "tracked s1 (unfollow_loop followers rest (not_following + 1) s1)" .
          with t1 have "tracked s (unfollow_loop followers rest (not_following + 1) s1)"
            by (rule tracked_trans)
          with False Unfollowed n dr show ?thesis by simp
        qed
      qed
    next
      case (Get_user_error r)
      with 2 False show ?thesis by simp
    next
      case (Unfollow_error r)
      from 2(3)[OF False Unfollow_error]
      have "tracked (emit (Unfollow friend) s)
              (unfollow_loop followers rest not_following (emit (Unfollow friend) s))" .
      with tracked_emit_unfollow
      have "tracked s (unfollow_loop followers rest not_following (emit (Unfollow friend) s))"
        by (rule tracked_trans)
      with False Unfollow_error show ?thesis by simp
    qed
  qed
qed

lemma tracked_unfollow: "tracked s (unfollow friends followers s)"
  by (cases "(friends, followers, s)" rule: unfollow.cases)
     (simp_all add: tracked_unfollow_loop tracked_refl)

lemma tracked_run_cycles: "tracked s (run_cycles cs s)"
proof (induction cs arbitrary: s)
  case Nil
  then show ?case by (simp add: tracked_refl)
next
  case (Cons c cs)
  have "tracked s (run_cycle c s)"
    by (cases c) (simp_all add: tracked_follow_back tracked_unfollow)
  moreover have "tracked (run_cycle c s) (run_cycles cs (run_cycle c s))" by (rule Cons.IH)
  ultimately show ?case by (simp add: tracked_trans)
qed

lemma request_sent_live: "request_sent i s = (i \<in> live_ids s)"
  by (simp add: request_sent_def live_ids_def)

lemma follow_one_keeps:
  assumes "request_sent i s"
  shows "request_sent i (follow_one p s)
     \<and> (\<exists>es. journal (follow_one p s) = journal s @ es \<and> Follow i \<notin> set es
           \<and> (\<forall>j. Deleted request_sent_table j \<notin> set es))"
proof -
  obtain f outcome where p: "p = (f, outcome)" by (cases p)
  have r: "request_sent i (follow_one p s)"
    using assms unfolding p request_sent_def by (simp add: follow_one_rows)
  have "Follow i \<notin> set (if request_sent (id_str f) s then []
      else if outcome = Followed \<or> outcome = Follow_error (Some 403)
      then [Follow (id_str f), Inserted request_sent_table (id_str f)]
      else [Follow (id_str f)])"
    using assms by auto
  moreover have "\<forall>j. Deleted request_sent_table j \<notin> set (if request_sent (id_str f) s then []
      else if outcome = Followed \<or> outcome = Follow_error (Some 403)
      then [Follow (id_str f), Inserted request_sent_table (id_str f)]
      else [Follow (id_str f)])"
    by auto
  ultimately show ?thesis using r follow_one_journal[of f outcome s] unfolding p by blast
qed

lemma follow_one_no_delete:
  "\<exists>es. journal (follow_one p s) = journal s @ es
     \<and> (\<forall>j. Deleted request_sent_table j \<notin> set es)"
proof -
  obtain f outcome where p: "p = (f, outcome)" by (cases p)
  have "\<forall>j. Deleted request_sent_table j \<notin> set (if request_sent (id_str f) s then []
      else if outcome = Followed \<or> outcome = Follow_error (Some 403)
      then [Follow (id_str f), Inserted request_sent_table (id_str f)]
      else [Follow (id_str f)])"
    by auto
  then show ?thesis using follow_one_journal[of f outcome s] unfolding p by blast
qed

lemma follow_loop_no_delete:
  "\<exists>es. journal (follow_loop ps s) = journal s @ es
     \<and> (\<forall>j. Deleted request_sent_table j \<notin> set es)"
proof (induction ps arbitrary: s)
  case Nil
  then show ?case by simp
next
  case (Cons p ps)
  from follow_one_no_delete[of p s] obtain es1 where
    e1: "journal (follow_one p s) = journal s @ es1"
        "\<forall>j. Deleted request_sent_table j \<notin> set es1" by blast
  from Cons.IH[of "follow_one p s"] obtain es2 where
    e2: "journal (follow_loop ps (follow_one p s)) = journal (follow_one p s) @ es2"
        "\<forall>j. Deleted request_sent_table j \<notin> set es2" by blast
  from e1 e2 have "journal (follow_loop (p # ps) s) = journal s @ (es1 @ es2)
     \<and> (\<forall>j. Deleted request_sent_table j \<notin> set (es1 @ es2))" by simp
  then show ?case by blast
qed

lemma follow_loop_keeps:
  assumes "request_sent i s"
  shows "request_sent i (follow_loop ps s)
     \<and> (\<exists>es. journal (follow_loop ps s) = journal s @ es \<and> Follow i \<notin> set es)"
  using assms
proof (induction ps arbitrary: s)
  case Nil
  then show ?case by simp
next
  case (Cons p ps)
  from follow_one_keeps[OF Cons.prems, of p] obtain es1 where
    r1: "request_sent i (follow_one p s)"
    and e1: "journal (follow_one p s) = journal s @ es1" "Follow i \<notin> set es1" by blast
  from Cons.IH[OF r1] obtain es2 where
    r2: "request_sent i (follow_loop ps (follow_one p s))"
    and e2: "journal (follow_loop ps (follow_one p s)) = journal (follow_one p s) @ es2"
        "Follow i \<notin> set es2" by blast
  from e1 e2 have "journal (follow_loop (p # ps) s) = journal s @ (es1 @ es2)
     \<and> Follow i \<notin> set (es1 @ es2)" by simp
  with r2 show ?case by auto
qed

lemma follow_back_keeps:
  assumes "request_sent i s"
  shows "request_sent i (follow_back answer s)
     \<and> (\<exists>es. journal (follow_back answer s) = journal s @ es \<and> Follow i \<notin> set es)"
  using assms follow_loop_keeps by (cases answer) simp_all

lemma follow_back_runs_keep:
  assumes "request_sent i s" "list_all is_follow_back_run cs"
  shows "request_sent i (run_cycles cs s)
     \<and> (\<exists>es. journal (run_cycles cs s) = journal s @ es \<and> Follow i \<notin> set es)"
  using assms
proof (induction cs arbitrary: s)
  case Nil
  then show ?case by simp
next
  case (Cons c cs)
  from Cons.prems(2) obtain answer where c: "c = Follow_back_run answer"
    by (cases c) simp_all
  from follow_back_keeps[OF Cons.prems(1), of answer] obtain es1 where
    r1: "request_sent i (follow_back answer s)"
    and e1: "journal (follow_back answer s) = journal s @ es1" "Follow i \<notin> set es1" by blast
  from Cons.prems(2) have "list_all is_follow_back_run cs" by simp
  from Cons.IH[OF r1 this] obtain es2 where
    r2: "request_sent i (run_cycles cs (follow_back answer s))"
    and e2: "journal (run_cycles cs (follow_back answer s))
               = journal (follow_back answer s) @ es2"
        "Follow i \<notin> set es2" by blast
  from e1 e2 have "journal (run_cycles (c # cs) s) = journal s @ (es1 @ es2)
     \<and> Follow i \<notin> set (es1 @ es2)" by (simp add: c)
  with r2 c show ?case by auto
qed

text \<open>
  C9. In every history of runs of \<open>follow_back\<close> and \<open>unfollow\<close>, each call of
  \<open>follow()\<close> is for an id that has no row in the table of sent requests at that moment.
  Through runs of \<open>follow_back\<close> alone an id that has a row keeps it and is never
  followed, since \<open>follow_back\<close> deletes no row: only \<open>unfollow\<close> does. One pass for one
  follower adds a row exactly when the id had none and \<open>follow()\<close> returned or raised
  with status 403; with 429, another status or no response it adds none.
\<close>

theorem follow_requests_at_most_once:
  "follows_only_new (set (map key (request_rows s))) (events_since s (run_cycles cs s))
   \<and> (request_sent i s \<and> list_all is_follow_back_run cs \<longrightarrow>
        Follow i \<notin> set (events_since s (run_cycles cs s))
        \<and> request_sent i (run_cycles cs s))
   \<and> (\<forall>j. Deleted request_sent_table j \<notin> set (events_since s (follow_back answer s)))
   \<and> request_rows (follow_one (f, outcome) s) =
       (if \<not> request_sent (id_str f) s
           \<and> (outcome = Followed \<or> outcome = Follow_error (Some 403))
        then request_rows s @
               [\<lparr>key = id_str f, detail = Some (screen_name f), timestamp = clock s\<rparr>]
        else request_rows s)"
proof (intro conjI impI allI)
  from tracked_run_cycles[of s cs]
  show "follows_only_new (set (map key (request_rows s))) (events_since s (run_cycles cs s))"
    by (simp add: tracked_def live_ids_def)
next
  assume a: "request_sent i s \<and> list_all is_follow_back_run cs"
  then have "request_sent i s" "list_all is_follow_back_run cs" by simp_all
  from follow_back_runs_keep[OF this] obtain es where
    r: "request_sent i (run_cycles cs s)"
    and e: "journal (run_cycles cs s) = journal s @ es" "Follow i \<notin> set es" by blast
  from e(1) have "events_since s (run_cycles cs s) = es" by (rule events_since_append)
  with e(2) show "Follow i \<notin> set (events_since s (run_cycles cs s))" by simp
  from r show "request_sent i (run_cycles cs s)" .
next
  fix j
  have "\<exists>es. journal (follow_back answer s) = journal s @ es
     \<and> (\<forall>j. Deleted request_sent_table j \<notin> set es)"
    using follow_loop_no_delete by (cases answer) simp_all
  then obtain es where e: "journal (follow_back answer s) = journal s @ es"
     "\<forall>j. Deleted request_sent_table j \<notin> set es" by blast
  from e(1) have "events_since s (follow_back answer s) = es" by (rule events_since_append)
  with e(2) show "Deleted request_sent_table j \<notin> set (events_since s (follow_back answer s))"
    by simp
next
  show "request_rows (follow_one (f, outcome) s) =
       (if \<not> request_sent (id_str f) s
           \<and> (outcome = Followed \<or> outcome = Follow_error (Some 403))
        then request_rows s @
               [\<lparr>key = id_str f, detail = Some (screen_name f), timestamp = clock s\<rparr>]
        else request_rows s)"
    by (rule follow_one_rows)
qed

theorem follow_requests_at_most_once_witness:
  "request_sent ''7'' example_tracker_state
   \<and> list_all is_follow_back_run
        [Follow_back_run example_followers, Follow_back_run example_followers]
   \<and> Follow ''7'' \<notin> set (events_since example_tracker_state
        (run_cycles [Follow_back_run example_followers, Follow_back_run example_followers]
           example_tracker_state))
   \<and> events_since example_tracker_state
        (run_cycles [Follow_back_run example_followers, Follow_back_run example_followers,
                     Unfollow_run (Pages [(''7'', Unfollowed)]) (Pages []),
                     Follow_back_run example_followers]
           example_tracker_state)
       = [Follow ''8'', Follow ''9'', Inserted request_sent_table ''9'',
          Follow ''8'', Unfollow ''7'', Deleted request_sent_table ''7'',
          Follow ''7'', Inserted request_sent_table ''7'', Follow ''8'']
   \<and> follows_only_new (set (map key (request_rows example_tracker_state)))
        (events_since example_tracker_state
          (run_cycles [Follow_back_run example_followers, Follow_back_run example_followers,
                       Unfollow_run (Pages [(''7'', Unfollowed)]) (Pages []),
                       Follow_back_run example_followers]
             example_tracker_state))"
proof -
  have h1: "request_sent ''7'' example_tracker_state"
    by (simp add: tracker_defs)
  have h2: "list_all is_follow_back_run
        [Follow_back_run example_followers, Follow_back_run example_followers]"
    by simp
  have e: "events_since example_tracker_state
        (run_cycles [Follow_back_run example_followers, Follow_back_run example_followers,
                     Unfollow_run (Pages [(''7'', Unfollowed)]) (Pages []),
                     Follow_back_run example_followers]
           example_tracker_state)
       = [Follow ''8'', Follow ''9'', Inserted request_sent_table ''9'',
          Follow ''8'', Unfollow ''7'', Deleted request_sent_table ''7'',
          Follow ''7'', Inserted request_sent_table ''7'', Follow ''8'']"
    by (simp add: tracker_defs)
  note t1 = follow_requests_at_most_once
      [where s = example_tracker_state and i = "''7''"
         and cs = "[Follow_back_run example_followers, Follow_back_run example_followers]"]
  note t2 = follow_requests_at_most_once
      [where s = example_tracker_state
         and cs = "[Follow_back_run example_followers, Follow_back_run example_followers,
                     Unfollow_run (Pages [(''7'', Unfollowed)]) (Pages []),
                     Follow_back_run example_followers]"]
  from t1 h1 h2 have c1: "Follow ''7'' \<notin> set (events_since example_tracker_state
        (run_cycles [Follow_back_run example_followers, Follow_back_run example_followers]
           example_tracker_state))" by blast
  from t2 have c2: "follows_only_new (set (map key (request_rows example_tracker_state)))
        (events_since example_tracker_state
          (run_cycles [Follow_back_run example_followers, Follow_back_run example_followers,
                       Unfollow_run (Pages [(''7'', Unfollowed)]) (Pages []),
                       Follow_back_run example_followers]
             example_tracker_state))" by blast
  from h1 h2 c1 e c2 show ?thesis by blast
qed

end
